theory Spec2Isabelle
  imports Main
begin

section \<open>The step/section navigator of \<^verbatim>\<open>src/utils/observer.js\<close>\<close>

text \<open>
  \<^verbatim>\<open>initObserver\<close> keeps its state in four closure variables (\<^verbatim>\<open>sectionIndex\<close>,
  \<^verbatim>\<open>stepIndex\<close>, \<^verbatim>\<open>isAnimating\<close>, \<^verbatim>\<open>activeOutside\<close>) and changes the page
  through the animation engine. The model passes that state explicitly, together with
  the part of the page the navigator writes (the children of \<^verbatim>\<open>#device-content\<close> and
  of the four outside layers) and the animations that are in flight. JavaScript numbers
  that hold indices are \<open>int\<close>, so that \<^verbatim>\<open>steps.length - 1\<close> is \<open>-1\<close> for a section
  with no step template, as in the source.
\<close>

subsection \<open>The page\<close>

datatype position = PosLeft | PosRight | PosTop | PosBottom

text \<open>
  A \<^verbatim>\<open>step-template\<close>: \<open>stContent\<close> is \<^verbatim>\<open>tpl.content.firstElementChild\<close> (its markup),
  \<open>None\<close> when the template holds no element; \<open>stEnter\<close> is \<^verbatim>\<open>tpl.dataset.enter\<close>.
\<close>

record stepTemplate =
  stContent :: "string option"
  stEnter :: "string option"

text \<open>
  An \<^verbatim>\<open>outside-template\<close>. \<open>otStep\<close> is the value of \<^verbatim>\<open>Number(tpl.dataset.step)\<close>
  when that is an integer and \<open>None\<close> otherwise (NaN or a fraction, which \<^verbatim>\<open>!==\<close> tells
  apart from every step index). \<open>otPosition\<close> is \<^verbatim>\<open>tpl.dataset.position\<close>, \<open>None\<close> when
  the attribute is absent.
\<close>

record outsideTemplate =
  otStep :: "int option"
  otPosition :: "string option"
  otContent :: "string option"

record pageSection =
  stepTemplates :: "stepTemplate list"
  outsideTemplates :: "outsideTemplate list"

text \<open>
  The document at the time of the call: the \<^verbatim>\<open>.section\<close> elements in document order,
  the markup of the children of \<^verbatim>\<open>#device-content\<close> (\<open>None\<close> when the element is
  absent), and which of the four layer elements exist.
\<close>

record document =
  sections :: "pageSection list"
  deviceContent :: "string list option"
  outsideLayers :: "position \<Rightarrow> bool"

text \<open>A live element: \<open>cloneNode\<close> yields a new object, told apart by \<open>nodeId\<close>.\<close>

record node =
  nodeId :: nat
  html :: string

subsection \<open>Animations in flight\<close>

text \<open>The from/to variables of an outside tween: opacity, x, y.\<close>

datatype vars = Vars int int int

text \<open>
  Each constructor is one animation that the source starts, with the values its
  completion callback has captured:
  \<^item> \<open>OutsideEnter\<close>: the \<^verbatim>\<open>gsap.fromTo\<close> of \<^verbatim>\<open>showOutside\<close> (no callback);
  \<^item> \<open>OutsideExit\<close>: the \<^verbatim>\<open>gsap.to\<close> of \<^verbatim>\<open>hideOutside\<close>, whose \<^verbatim>\<open>onComplete\<close>
    removes the node;
  \<^item> \<open>StepFadeOut targets node fromX\<close>: the \<^verbatim>\<open>gsap.to(deviceContent.children, ...)\<close> of
    \<^verbatim>\<open>renderDeviceStep\<close>, whose \<^verbatim>\<open>onComplete\<close> swaps the content;
  \<^item> \<open>StepEnter node fromX\<close>: the inner \<^verbatim>\<open>gsap.fromTo\<close>, whose \<^verbatim>\<open>onComplete\<close> clears
    \<^verbatim>\<open>isAnimating\<close>;
  \<^item> \<open>SectionSlide current next nextIndex direction entryStep\<close>: the timeline of
    \<^verbatim>\<open>goToSection\<close> with its content callback still to come. The two slide tweens
    of the timeline carry no callback (the timeline's \<^verbatim>\<open>onComplete\<close> is empty).
  The engine's interpolation and timing are not modelled: a pending animation may
  complete at any later moment.
\<close>

datatype anim =
    OutsideEnter node vars
  | OutsideExit node vars
  | StepFadeOut "node list" node int
  | StepEnter node int
  | SectionSlide int pageSection int int int

text \<open>
  The closure state, the page and the pending animations. \<open>uncaught\<close> lists the
  exceptions that have left a handler or callback of the navigator after it had written
  to the state: the browser reports them and the page goes on with what was written.
\<close>

datatype error = TypeError

record navState =
  sectionIndex :: int
  stepIndex :: int
  isAnimating :: bool
  activeOutside :: "(node \<times> position) list"
  deviceChildren :: "node list"
  layerNodes :: "(position \<times> node) list"
  tweens :: "anim list"
  nextId :: nat
  uncaught :: "error list"

subsection \<open>Config and helpers\<close>

definition OFFSCREEN_OFFSET :: int where
  "OFFSCREEN_OFFSET = 40"

text \<open>Indexing a JavaScript array: \<^verbatim>\<open>undefined\<close> out of range.\<close>

definition nthOpt :: "'a list \<Rightarrow> int \<Rightarrow> 'a option" where
  "nthOpt xs i = (if 0 \<le> i \<and> i < int (length xs) then Some (xs ! nat i) else None)"

definition getStepTemplates :: "pageSection \<Rightarrow> stepTemplate list" where
  "getStepTemplates sectionEl = stepTemplates sectionEl"

definition getEntryStepIndex :: "pageSection \<Rightarrow> int \<Rightarrow> int" where
  "getEntryStepIndex sectionEl direction =
     (let steps = getStepTemplates sectionEl;
          last = max (int (length steps) - 1) 0
      in if direction > 0 then min 1 last else last)"

definition getOutsideTemplates :: "pageSection \<Rightarrow> outsideTemplate list" where
  "getOutsideTemplates sectionEl = outsideTemplates sectionEl"

fun getFromVarsForPosition :: "position \<Rightarrow> vars" where
  "getFromVarsForPosition PosLeft = Vars 0 (- OFFSCREEN_OFFSET) 0"
| "getFromVarsForPosition PosRight = Vars 0 OFFSCREEN_OFFSET 0"
| "getFromVarsForPosition PosTop = Vars 0 0 (- OFFSCREEN_OFFSET)"
| "getFromVarsForPosition PosBottom = Vars 0 0 OFFSCREEN_OFFSET"

fun getToVarsForPosition :: "position \<Rightarrow> vars" where
  "getToVarsForPosition PosLeft = Vars 0 (- OFFSCREEN_OFFSET) 0"
| "getToVarsForPosition PosRight = Vars 0 OFFSCREEN_OFFSET 0"
| "getToVarsForPosition PosTop = Vars 0 0 (- OFFSCREEN_OFFSET)"
| "getToVarsForPosition PosBottom = Vars 0 0 OFFSCREEN_OFFSET"

subsection \<open>The animation engine's \<^verbatim>\<open>killTweensOf\<close>\<close>

text \<open>
  Killing a set of targets takes them out of every tween on nodes; a tween that loses
  its last target dies with its callback. A tween that never had a target (a fade-out
  of an empty \<^verbatim>\<open>#device-content\<close>) cannot be reached this way. The timeline of
  \<^verbatim>\<open>goToSection\<close> animates section elements, which are never passed here.
\<close>

fun killAnim :: "node list \<Rightarrow> anim \<Rightarrow> anim option" where
  "killAnim ns (OutsideEnter n v) = (if n \<in> set ns then None else Some (OutsideEnter n v))"
| "killAnim ns (OutsideExit n v) = (if n \<in> set ns then None else Some (OutsideExit n v))"
| "killAnim ns (StepFadeOut ts n fromX) =
     (let ts' = filter (\<lambda>t. t \<notin> set ns) ts
      in if ts \<noteq> [] \<and> ts' = [] then None else Some (StepFadeOut ts' n fromX))"
| "killAnim ns (StepEnter n fromX) = (if n \<in> set ns then None else Some (StepEnter n fromX))"
| "killAnim ns (SectionSlide c nx ni dir es) = Some (SectionSlide c nx ni dir es)"

definition killTweensOf :: "node list \<Rightarrow> navState \<Rightarrow> navState" where
  "killTweensOf ns s = s\<lparr>tweens := List.map_filter (killAnim ns) (tweens s)\<rparr>"

subsection \<open>Outside content\<close>

definition hideOutsideItem :: "node \<times> position \<Rightarrow> navState \<Rightarrow> navState" where
  "hideOutsideItem item s =
     (case item of (node, position) \<Rightarrow>
        let s1 = killTweensOf [node] s
        in s1\<lparr>tweens := tweens s1 @ [OutsideExit node (getToVarsForPosition position)]\<rparr>)"

definition hideOutside :: "navState \<Rightarrow> navState" where
  "hideOutside s =
     (if activeOutside s = [] then s
      else (fold hideOutsideItem (activeOutside s) s)\<lparr>activeOutside := []\<rparr>)"

text \<open>
  \<^verbatim>\<open>outsideLayers[position]\<close>. The object literal has the four keys \<^verbatim>\<open>left\<close>,
  \<^verbatim>\<open>right\<close>, \<^verbatim>\<open>top\<close>, \<^verbatim>\<open>bottom\<close>, each holding the layer element or \<^verbatim>\<open>null\<close>. A
  name that the object inherits from \<^verbatim>\<open>Object.prototype\<close> yields a function (or the
  prototype itself): truthy, and not an element. Every other name, and an absent
  attribute (the key \<^verbatim>\<open>undefined\<close>), yields \<^verbatim>\<open>undefined\<close>.
\<close>

definition positionKey :: "string \<Rightarrow> position option" where
  "positionKey key =
     (if key = ''left'' then Some PosLeft
      else if key = ''right'' then Some PosRight
      else if key = ''top'' then Some PosTop
      else if key = ''bottom'' then Some PosBottom
      else None)"

definition inheritedKeys :: "string list" where
  "inheritedKeys =
     [''constructor'', ''hasOwnProperty'', ''isPrototypeOf'', ''propertyIsEnumerable'',
      ''toLocaleString'', ''toString'', ''valueOf'', ''__proto__'',
      ''__defineGetter__'', ''__defineSetter__'', ''__lookupGetter__'', ''__lookupSetter__'']"

datatype layerValue = LayerElement position | NotAnElement | Falsy

definition lookupLayer :: "document \<Rightarrow> string option \<Rightarrow> layerValue" where
  "lookupLayer d position =
     (case position of
        None \<Rightarrow> Falsy
      | Some key \<Rightarrow>
          (case positionKey key of
             Some p \<Rightarrow> if outsideLayers d p then LayerElement p else Falsy
           | None \<Rightarrow> if key \<in> set inheritedKeys then NotAnElement else Falsy))"

text \<open>
  The callback that \<^verbatim>\<open>showOutside\<close> passes to \<^verbatim>\<open>forEach\<close>. On a value that is truthy
  but no element, \<^verbatim>\<open>layer.appendChild\<close> is \<^verbatim>\<open>undefined\<close> and the call throws a
  TypeError, after both guards and before anything is written.
\<close>

definition showOutsideTpl :: "document \<Rightarrow> int \<Rightarrow> outsideTemplate \<Rightarrow> navState \<Rightarrow> error + navState" where
  "showOutsideTpl d step tpl s =
     (if otStep tpl \<noteq> Some step then Inr s
      else case lookupLayer d (otPosition tpl) of
        Falsy \<Rightarrow> Inr s
      | NotAnElement \<Rightarrow> (case otContent tpl of None \<Rightarrow> Inr s | Some h \<Rightarrow> Inl TypeError)
      | LayerElement position \<Rightarrow>
          (case otContent tpl of
             None \<Rightarrow> Inr s
           | Some h \<Rightarrow>
               let node = \<lparr>nodeId = nextId s, html = h\<rparr>
               in Inr (s\<lparr>layerNodes := layerNodes s @ [(position, node)],
                         tweens := tweens s @ [OutsideEnter node (getFromVarsForPosition position)],
                         activeOutside := activeOutside s @ [(node, position)],
                         nextId := Suc (nextId s)\<rparr>)))"

text \<open>
  The \<^verbatim>\<open>forEach\<close> of \<^verbatim>\<open>showOutside\<close>: an exception of the callback ends the loop and
  leaves \<^verbatim>\<open>showOutside\<close>; the result holds it together with the state at that moment.
\<close>

fun showOutsideEach :: "document \<Rightarrow> int \<Rightarrow> outsideTemplate list \<Rightarrow> navState \<Rightarrow> error option \<times> navState" where
  "showOutsideEach d step [] s = (None, s)"
| "showOutsideEach d step (tpl # tpls) s =
     (case showOutsideTpl d step tpl s of
        Inl e \<Rightarrow> (Some e, s)
      | Inr s' \<Rightarrow> showOutsideEach d step tpls s')"

definition showOutside :: "document \<Rightarrow> pageSection \<Rightarrow> int \<Rightarrow> navState \<Rightarrow> error option \<times> navState" where
  "showOutside d sectionEl step s = showOutsideEach d step (getOutsideTemplates sectionEl) s"

text \<open>
  \<^verbatim>\<open>showOutside(...)\<close> as the last statement of a handler or callback: an exception
  leaves the handler uncaught, and what has been written stays.
\<close>

definition showOutsideCall :: "document \<Rightarrow> pageSection \<Rightarrow> int \<Rightarrow> navState \<Rightarrow> navState" where
  "showOutsideCall d sectionEl step s =
     (case showOutside d sectionEl step s of
        (None, s') \<Rightarrow> s'
      | (Some e, s') \<Rightarrow> s'\<lparr>uncaught := uncaught s' @ [e]\<rparr>)"

subsection \<open>Device content\<close>

definition enterOffset :: "stepTemplate \<Rightarrow> int" where
  "enterOffset tpl =
     (let enter = (case stEnter tpl of None \<Rightarrow> ''center'' | Some e \<Rightarrow> if e = [] then ''center'' else e)
      in if enter = ''right'' then OFFSCREEN_OFFSET
         else if enter = ''left'' then - OFFSCREEN_OFFSET
         else 0)"

definition renderDeviceStep :: "pageSection \<Rightarrow> int \<Rightarrow> navState \<Rightarrow> navState" where
  "renderDeviceStep sectionEl step s =
     (let s0 = killTweensOf (deviceChildren s) s;
          templates = getStepTemplates sectionEl
      in case nthOpt templates step of
        None \<Rightarrow> s0
      | Some tpl \<Rightarrow>
          (case stContent tpl of
             None \<Rightarrow> s0
           | Some h \<Rightarrow>
               let node = \<lparr>nodeId = nextId s0, html = h\<rparr>;
                   fromX = enterOffset tpl;
                   s1 = s0\<lparr>isAnimating := True, nextId := Suc (nextId s0)\<rparr>
               in s1\<lparr>tweens := tweens s1 @ [StepFadeOut (deviceChildren s1) node fromX]\<rparr>))"

subsection \<open>Section transitions\<close>

definition goToSection :: "document \<Rightarrow> int \<Rightarrow> int \<Rightarrow> navState \<Rightarrow> navState" where
  "goToSection d nextIndex direction s =
     (if nextIndex < 0 \<or> nextIndex \<ge> int (length (sections d)) then s
      else if isAnimating s then s
      else
        let s1 = s\<lparr>isAnimating := True\<rparr>;
            current = sectionIndex s1;
            next = sections d ! nat nextIndex;
            entryStep = getEntryStepIndex next direction;
            s2 = hideOutside s1
        in s2\<lparr>tweens := tweens s2 @ [SectionSlide current next nextIndex direction entryStep]\<rparr>)"

subsection \<open>Completion callbacks\<close>

fun onComplete :: "document \<Rightarrow> anim \<Rightarrow> navState \<Rightarrow> navState" where
  "onComplete d (OutsideEnter n v) s = s"
| "onComplete d (OutsideExit n v) s = s\<lparr>layerNodes := filter (\<lambda>pn. snd pn \<noteq> n) (layerNodes s)\<rparr>"
| "onComplete d (StepFadeOut ts n fromX) s =
     s\<lparr>deviceChildren := [n], tweens := tweens s @ [StepEnter n fromX]\<rparr>"
| "onComplete d (StepEnter n fromX) s = s\<lparr>isAnimating := False\<rparr>"
| "onComplete d (SectionSlide c next nextIndex direction entryStep) s =
     (let s1 = s\<lparr>sectionIndex := nextIndex, stepIndex := entryStep\<rparr>;
          s2 = renderDeviceStep next entryStep s1
      in showOutsideCall d next entryStep s2)"

text \<open>The engine completes a pending animation: it leaves the pending list and its callback runs.\<close>

definition complete :: "document \<Rightarrow> anim \<Rightarrow> navState \<Rightarrow> navState" where
  "complete d a s =
     (if a \<in> set (tweens s) then onComplete d a (s\<lparr>tweens := remove1 a (tweens s)\<rparr>) else s)"

subsection \<open>Navigation\<close>

text \<open>
  \<^verbatim>\<open>goForward\<close> reads \<^verbatim>\<open>sections[sectionIndex]\<close> and calls \<^verbatim>\<open>querySelectorAll\<close> on
  it at once; \<^verbatim>\<open>goBackward\<close> only does so inside \<^verbatim>\<open>renderDeviceStep\<close>. On
  \<^verbatim>\<open>undefined\<close> that call throws a TypeError, here the result \<open>Inl TypeError\<close>.
  \<open>Inr s'\<close> is the state the handler leaves behind, also when \<^verbatim>\<open>showOutside\<close>, its
  last statement, throws: then the exception is the last entry of \<open>uncaught s'\<close>.
\<close>

definition goForward :: "document \<Rightarrow> navState \<Rightarrow> error + navState" where
  "goForward d s =
     (if isAnimating s then Inr s
      else case nthOpt (sections d) (sectionIndex s) of
        None \<Rightarrow> Inl TypeError
      | Some sectionEl \<Rightarrow>
          let steps = getStepTemplates sectionEl
          in if stepIndex s < int (length steps) - 1 then
               let s1 = s\<lparr>stepIndex := stepIndex s + 1\<rparr>;
                   s2 = hideOutside s1;
                   s3 = renderDeviceStep sectionEl (stepIndex s2) s2
               in Inr (showOutsideCall d sectionEl (stepIndex s3) s3)
             else if sectionIndex s < int (length (sections d)) - 1 then
               Inr (goToSection d (sectionIndex s + 1) 1 (hideOutside s))
             else Inr s)"

definition goBackward :: "document \<Rightarrow> navState \<Rightarrow> error + navState" where
  "goBackward d s =
     (if isAnimating s then Inr s
      else if stepIndex s > 0 then
        (case nthOpt (sections d) (sectionIndex s) of
           None \<Rightarrow> Inl TypeError
         | Some sectionEl \<Rightarrow>
             let s1 = s\<lparr>stepIndex := stepIndex s - 1\<rparr>;
                 s2 = hideOutside s1;
                 s3 = renderDeviceStep sectionEl (stepIndex s2) s2
             in Inr (showOutsideCall d sectionEl (stepIndex s3) s3))
      else if sectionIndex s > 0 then
        Inr (goToSection d (sectionIndex s - 1) (- 1) (hideOutside s))
      else Inr s)"

subsection \<open>Initialisation and teardown\<close>

text \<open>
  What \<^verbatim>\<open>initObserver\<close> touches outside its closure: the console, the gesture
  observer, the \<^verbatim>\<open>keydown\<close> listener on \<^verbatim>\<open>window\<close>, and the closure state itself
  (\<open>None\<close> while no navigator exists). The guard \<^verbatim>\<open>!sections.length || !deviceContent\<close>
  is the two aborting branches of \<open>initObserver\<close>. \<^verbatim>\<open>initSectionsPosition\<close> only sets
  \<^verbatim>\<open>yPercent\<close> on the sections, a property the model does not hold. The nodes already
  in \<^verbatim>\<open>#device-content\<close> get the identities \<open>0, 1, ...\<close>; the layers are taken to
  hold only what the navigator appends, and an outside instance is only ever a child of
  a layer, so \<^verbatim>\<open>node.remove()\<close> acts on \<open>layerNodes\<close>.
\<close>

record world =
  console :: "string list"
  observers :: nat
  keydownListeners :: nat
  navigator :: "navState option"

text \<open>
  What the caller of \<^verbatim>\<open>initObserver\<close> gets: the empty function, \<^verbatim>\<open>destroy\<close>, or, when
  the first \<^verbatim>\<open>showOutside\<close> throws, the exception and no function at all.
\<close>

datatype teardown = NoopTeardown | Destroy | InitThrew error

definition initialChildren :: "string list \<Rightarrow> node list" where
  "initialChildren hs = map (\<lambda>(i, h). \<lparr>nodeId = i, html = h\<rparr>) (enumerate 0 hs)"

definition initState :: "document \<Rightarrow> string list \<Rightarrow> navState" where
  "initState d hs =
     (let s0 = \<lparr>sectionIndex = 0, stepIndex = 0, isAnimating = False, activeOutside = [],
                deviceChildren = initialChildren hs, layerNodes = [], tweens = [],
                nextId = length hs, uncaught = []\<rparr>;
          s1 = renderDeviceStep (sections d ! 0) 0 s0
      in showOutsideCall d (sections d ! 0) 0 s1)"

text \<open>The exception, if any, with which the first \<^verbatim>\<open>showOutside\<close> leaves \<^verbatim>\<open>initObserver\<close>.\<close>

definition initThrown :: "document \<Rightarrow> string list \<Rightarrow> error option" where
  "initThrown d hs =
     (let s0 = \<lparr>sectionIndex = 0, stepIndex = 0, isAnimating = False, activeOutside = [],
                deviceChildren = initialChildren hs, layerNodes = [], tweens = [],
                nextId = length hs, uncaught = []\<rparr>;
          s1 = renderDeviceStep (sections d ! 0) 0 s0
      in fst (showOutside d (sections d ! 0) 0 s1))"

definition initObserver :: "document \<Rightarrow> world \<Rightarrow> world \<times> teardown" where
  "initObserver d w =
     (case deviceContent d of
        None \<Rightarrow> (w\<lparr>console := console w @ [''Observer: missing DOM nodes.'']\<rparr>, NoopTeardown)
      | Some hs \<Rightarrow>
          if sections d = [] then
            (w\<lparr>console := console w @ [''Observer: missing DOM nodes.'']\<rparr>, NoopTeardown)
          else
            (case initThrown d hs of
               Some e \<Rightarrow> (w\<lparr>navigator := Some (initState d hs)\<rparr>, InitThrew e)
             | None \<Rightarrow>
                 (w\<lparr>observers := Suc (observers w),
                    keydownListeners := Suc (keydownListeners w),
                    navigator := Some (initState d hs)\<rparr>, Destroy)))"

fun callTeardown :: "teardown \<Rightarrow> world \<Rightarrow> world" where
  "callTeardown NoopTeardown w = w"
| "callTeardown (InitThrew e) w = w"
| "callTeardown Destroy w =
     w\<lparr>observers := observers w - 1,
       keydownListeners := keydownListeners w - 1,
       navigator := map_option hideOutside (navigator w)\<rparr>"

subsection \<open>Runs\<close>

text \<open>
  The navigator's states: the one \<^verbatim>\<open>initObserver\<close> builds, and every state that a
  gesture, a key, the completion of a pending animation or the teardown leads to. When
  \<^verbatim>\<open>initObserver\<close> throws, no listener is attached and only the completions happen;
  the relation then holds more states than the page can be in.
\<close>

inductive reachable :: "document \<Rightarrow> navState \<Rightarrow> bool" for d :: document where
  r_init: "sections d \<noteq> [] \<Longrightarrow> deviceContent d = Some hs \<Longrightarrow> reachable d (initState d hs)"
| r_forward: "reachable d s \<Longrightarrow> goForward d s = Inr s' \<Longrightarrow> reachable d s'"
| r_backward: "reachable d s \<Longrightarrow> goBackward d s = Inr s' \<Longrightarrow> reachable d s'"
| r_complete: "reachable d s \<Longrightarrow> a \<in> set (tweens s) \<Longrightarrow> reachable d (complete d a s)"
| r_destroy: "reachable d s \<Longrightarrow> reachable d (hideOutside s)"

text \<open>
  One thing that happens to a running navigator: a gesture or key that the observer
  maps to \<^verbatim>\<open>goForward\<close> or \<^verbatim>\<open>goBackward\<close>, or the engine completing an animation.
\<close>

datatype event = Forward | Backward | Complete anim

fun fire :: "document \<Rightarrow> event \<Rightarrow> navState \<Rightarrow> error + navState" where
  "fire d Forward s = goForward d s"
| "fire d Backward s = goBackward d s"
| "fire d (Complete a) s = Inr (complete d a s)"

fun run :: "document \<Rightarrow> event list \<Rightarrow> navState \<Rightarrow> error + navState" where
  "run d [] s = Inr s"
| "run d (e # es) s = (case fire d e s of Inl err \<Rightarrow> Inl err | Inr s' \<Rightarrow> run d es s')"

fun positionOf :: "error + navState \<Rightarrow> (int \<times> int) option" where
  "positionOf (Inl err) = None"
| "positionOf (Inr s) = Some (sectionIndex s, stepIndex s)"

fun isSlide :: "anim \<Rightarrow> bool" where
  "isSlide (SectionSlide c nx ni dir es) = True"
| "isSlide _ = False"

text \<open>
  The animations that carry the navigation itself: the section timeline, the fade-out
  of the old device content and the entry of the new one.
\<close>

fun isPipeline :: "anim \<Rightarrow> bool" where
  "isPipeline (OutsideEnter n v) = False"
| "isPipeline (OutsideExit n v) = False"
| "isPipeline _ = True"

text \<open>
  The engine left alone: it completes the oldest pending animation until none is
  pending. A completion starts finitely many new animations, which \<open>weight\<close> bounds.
\<close>

fun weight :: "anim \<Rightarrow> nat" where
  "weight (OutsideEnter n v) = 1"
| "weight (OutsideExit n v) = 1"
| "weight (StepFadeOut ts n fromX) = 2"
| "weight (StepEnter n fromX) = 1"
| "weight (SectionSlide c nx ni dir es) = 3 + length (getOutsideTemplates nx)"

definition pending :: "navState \<Rightarrow> nat" where
  "pending s = sum_list (map weight (tweens s))"

function drain :: "document \<Rightarrow> navState \<Rightarrow> navState" where
  "drain d s = (case tweens s of [] \<Rightarrow> s | a # _ \<Rightarrow> drain d (complete d a s))"
  by pat_completeness auto

text \<open>
  \<^verbatim>\<open>goForward\<close> called \<open>n\<close> times, each call made once the animations of the one
  before have completed.
\<close>

fun forwardSettled :: "document \<Rightarrow> nat \<Rightarrow> navState \<Rightarrow> error + navState" where
  "forwardSettled d 0 s = Inr s"
| "forwardSettled d (Suc n) s =
     (case goForward d s of Inl err \<Rightarrow> Inl err | Inr s' \<Rightarrow> forwardSettled d n (drain d s'))"

subsection \<open>Invariants\<close>

text \<open>The index of a section's last step; 0 for a section with no step template.\<close>

definition lastStepOf :: "pageSection \<Rightarrow> int" where
  "lastStepOf sectionEl = max (int (length (getStepTemplates sectionEl)) - 1) 0"

fun slideOk :: "document \<Rightarrow> anim \<Rightarrow> bool" where
  "slideOk d (SectionSlide c nx ni dir es) =
     (0 \<le> ni \<and> ni < int (length (sections d)) \<and> nx = sections d ! nat ni \<and>
      es = getEntryStepIndex nx dir)"
| "slideOk d _ = True"

definition positionOk :: "document \<Rightarrow> navState \<Rightarrow> bool" where
  "positionOk d s =
     (0 \<le> sectionIndex s \<and> sectionIndex s < int (length (sections d)) \<and>
      0 \<le> stepIndex s \<and> stepIndex s \<le> lastStepOf (sections d ! nat (sectionIndex s)))"

definition slidesOk :: "document \<Rightarrow> navState \<Rightarrow> bool" where
  "slidesOk d s = list_all (slideOk d) (filter isSlide (tweens s))"

definition pipeOk :: "navState \<Rightarrow> bool" where
  "pipeOk s =
     (length (filter isPipeline (tweens s)) \<le> 1 \<and>
      (filter isPipeline (tweens s) \<noteq> [] \<longrightarrow> isAnimating s))"

definition navInv :: "document \<Rightarrow> navState \<Rightarrow> bool" where
  "navInv d s = (positionOk d s \<and> slidesOk d s \<and> pipeOk s)"

text \<open>
  The new device content on its way in: the navigator is busy and the fade-out that
  \<^verbatim>\<open>renderDeviceStep\<close> has started for node \<open>n\<close> is the one navigation animation pending;
  its completion makes \<open>n\<close> the only child of \<^verbatim>\<open>#device-content\<close> and leaves the entry
  animation of \<open>n\<close> as the one pending, the navigator still busy; the completion of
  that entry animation clears the flag.
\<close>

definition entersContent :: "document \<Rightarrow> node list \<Rightarrow> node \<Rightarrow> int \<Rightarrow> navState \<Rightarrow> bool" where
  "entersContent d old n fromX s' =
     (isAnimating s' \<and> filter isPipeline (tweens s') = [StepFadeOut old n fromX] \<and>
      (let s1 = complete d (StepFadeOut old n fromX) s'
       in isAnimating s1 \<and> deviceChildren s1 = [n] \<and>
          filter isPipeline (tweens s1) = [StepEnter n fromX] \<and>
          (let s2 = complete d (StepEnter n fromX) s1
           in \<not> isAnimating s2 \<and> deviceChildren s2 = [n] \<and>
              filter isPipeline (tweens s2) = [])))"

subsection \<open>Outside templates and their instances\<close>

text \<open>The outside templates that \<^verbatim>\<open>showOutside\<close> compares equal to the step.\<close>

definition matchesStep :: "int \<Rightarrow> outsideTemplate \<Rightarrow> bool" where
  "matchesStep step tpl = (otStep tpl = Some step)"

text \<open>
  The templates that pass all three guards of \<^verbatim>\<open>showOutside\<close> and are appended: the
  step matches, the position names a layer element that exists, and the template has an
  element to clone.
\<close>

definition shown :: "document \<Rightarrow> int \<Rightarrow> outsideTemplate \<Rightarrow> bool" where
  "shown d step tpl =
     (matchesStep step tpl \<and>
      (case lookupLayer d (otPosition tpl) of
         LayerElement p \<Rightarrow> True | NotAnElement \<Rightarrow> False | Falsy \<Rightarrow> False) \<and>
      otContent tpl \<noteq> None)"

text \<open>
  The templates on which the callback throws: they pass the guards with a value that is
  no element.
\<close>

definition throwing :: "document \<Rightarrow> int \<Rightarrow> outsideTemplate \<Rightarrow> bool" where
  "throwing d step tpl =
     (matchesStep step tpl \<and> lookupLayer d (otPosition tpl) = NotAnElement \<and>
      otContent tpl \<noteq> None)"

fun positionName :: "position \<Rightarrow> string" where
  "positionName PosLeft = ''left''"
| "positionName PosRight = ''right''"
| "positionName PosTop = ''top''"
| "positionName PosBottom = ''bottom''"

text \<open>The template an active instance was cloned from, read back from the instance.\<close>

definition templateOf :: "int \<Rightarrow> node \<times> position \<Rightarrow> outsideTemplate" where
  "templateOf step item =
     \<lparr>otStep = Some step, otPosition = Some (positionName (snd item)),
      otContent = Some (html (fst item))\<rparr>"

definition freshActive :: "navState \<Rightarrow> bool" where
  "freshActive s =
     (distinct (map fst (activeOutside s)) \<and>
      list_all (\<lambda>item. nodeId (fst item) < nextId s) (activeOutside s))"

definition activeInLayers :: "navState \<Rightarrow> bool" where
  "activeInLayers s = list_all (\<lambda>item. (snd item, fst item) \<in> set (layerNodes s)) (activeOutside s)"

subsection \<open>Example pages\<close>

text \<open>
  Section A has three steps and two outside templates (step 0 on the left, step 1 on
  top), section B has one step.
\<close>

definition tplP :: stepTemplate where
  "tplP = \<lparr>stContent = Some ''<p></p>'', stEnter = Some ''left''\<rparr>"

definition secA :: pageSection where
  "secA = \<lparr>stepTemplates = [tplP, tplP, tplP],
            outsideTemplates =
              [\<lparr>otStep = Some 0, otPosition = Some ''left'', otContent = Some ''<i></i>''\<rparr>,
               \<lparr>otStep = Some 1, otPosition = Some ''top'', otContent = Some ''<b></b>''\<rparr>]\<rparr>"

definition secB :: pageSection where
  "secB = \<lparr>stepTemplates = [tplP], outsideTemplates = []\<rparr>"

definition allLayers :: "position \<Rightarrow> bool" where
  "allLayers p = True"

definition docAB :: document where
  "docAB = \<lparr>sections = [secA, secB], deviceContent = Some [], outsideLayers = allLayers\<rparr>"

text \<open>The page of \<open>docAB\<close> once the animations that \<^verbatim>\<open>initObserver\<close> starts have completed.\<close>

definition settledA :: navState where
  "settledA = \<lparr>sectionIndex = 0, stepIndex = 0, isAnimating = False,
      activeOutside = [(\<lparr>nodeId = 1, html = ''<i></i>''\<rparr>, PosLeft)],
      deviceChildren = [\<lparr>nodeId = 0, html = ''<p></p>''\<rparr>],
      layerNodes = [(PosLeft, \<lparr>nodeId = 1, html = ''<i></i>''\<rparr>)], tweens = [],
      nextId = 2, uncaught = []\<rparr>"

text \<open>At rest on the only step of section B, the last section of \<open>docAB\<close>.\<close>

definition lastB :: navState where
  "lastB = \<lparr>sectionIndex = 1, stepIndex = 0, isAnimating = False, activeOutside = [],
             deviceChildren = [\<lparr>nodeId = 7, html = ''<p></p>''\<rparr>], layerNodes = [], tweens = [],
             nextId = 8, uncaught = []\<rparr>"

text \<open>At rest on the last step of section A.\<close>

definition endA :: navState where
  "endA = \<lparr>sectionIndex = 0, stepIndex = 2, isAnimating = False, activeOutside = [],
            deviceChildren = [\<lparr>nodeId = 4, html = ''<p></p>''\<rparr>], layerNodes = [], tweens = [],
            nextId = 5, uncaught = []\<rparr>"

text \<open>
  States that \<open>docAB\<close> reaches from \<open>settledA\<close>: at rest on step 1; busy on the last step
  of section A, right after the step forward; busy on the only step of section B, right
  after the content callback of the transition into it.
\<close>

definition midA :: navState where
  "midA = \<lparr>sectionIndex = 0, stepIndex = 1, isAnimating = False,
      activeOutside = [(\<lparr>nodeId = 3, html = ''<b></b>''\<rparr>, PosTop)],
      deviceChildren = [\<lparr>nodeId = 2, html = ''<p></p>''\<rparr>],
      layerNodes = [(PosTop, \<lparr>nodeId = 3, html = ''<b></b>''\<rparr>)],
      tweens = [], nextId = 4, uncaught = []\<rparr>"

definition busyEndA :: navState where
  "busyEndA = \<lparr>sectionIndex = 0, stepIndex = 2, isAnimating = True, activeOutside = [],
      deviceChildren = [\<lparr>nodeId = 2, html = ''<p></p>''\<rparr>],
      layerNodes = [(PosTop, \<lparr>nodeId = 3, html = ''<b></b>''\<rparr>)],
      tweens = [OutsideExit \<lparr>nodeId = 3, html = ''<b></b>''\<rparr> (Vars 0 0 (- 40)),
                StepFadeOut [\<lparr>nodeId = 2, html = ''<p></p>''\<rparr>]
                  \<lparr>nodeId = 4, html = ''<p></p>''\<rparr> (- 40)],
      nextId = 5, uncaught = []\<rparr>"


text \<open>A navigator state with nothing shown yet.\<close>

definition blank :: navState where
  "blank = \<lparr>sectionIndex = 0, stepIndex = 0, isAnimating = False, activeOutside = [],
             deviceChildren = [], layerNodes = [], tweens = [], nextId = 0, uncaught = []\<rparr>"

text \<open>A page whose only section has no step template.\<close>

definition secEmpty :: pageSection where
  "secEmpty = \<lparr>stepTemplates = [], outsideTemplates = []\<rparr>"

definition docEmpty :: document where
  "docEmpty = \<lparr>sections = [secEmpty], deviceContent = Some [], outsideLayers = allLayers\<rparr>"

text \<open>A page without \<^verbatim>\<open>#device-content\<close>, and the world before \<^verbatim>\<open>initObserver\<close> runs.\<close>

definition docNoDevice :: document where
  "docNoDevice = \<lparr>sections = [secA, secB], deviceContent = None, outsideLayers = allLayers\<rparr>"

definition world0 :: world where
  "world0 = \<lparr>console = [], observers = 0, keydownListeners = 0, navigator = None\<rparr>"

text \<open>
  A page without \<^verbatim>\<open>#outside-top\<close> whose section has two outside templates for step 0,
  one on the left and one on top.
\<close>

definition noTop :: "position \<Rightarrow> bool" where
  "noTop p = (p \<noteq> PosTop)"

definition secTwo :: pageSection where
  "secTwo = \<lparr>stepTemplates = [tplP],
      outsideTemplates =
        [\<lparr>otStep = Some 0, otPosition = Some ''left'', otContent = Some ''<i></i>''\<rparr>,
         \<lparr>otStep = Some 0, otPosition = Some ''top'', otContent = Some ''<b></b>''\<rparr>]\<rparr>"

definition docNoTop :: document where
  "docNoTop = \<lparr>sections = [secTwo], deviceContent = Some [], outsideLayers = noTop\<rparr>"

text \<open>
  A section with three outside templates for step 0; the position of the second is
  \<^verbatim>\<open>toString\<close>, a name that \<^verbatim>\<open>outsideLayers\<close> inherits.
\<close>

definition secInherited :: pageSection where
  "secInherited = \<lparr>stepTemplates = [tplP],
      outsideTemplates =
        [\<lparr>otStep = Some 0, otPosition = Some ''left'', otContent = Some ''<i></i>''\<rparr>,
         \<lparr>otStep = Some 0, otPosition = Some ''toString'', otContent = Some ''<b></b>''\<rparr>,
         \<lparr>otStep = Some 0, otPosition = Some ''right'', otContent = Some ''<u></u>''\<rparr>]\<rparr>"

text \<open>
  A page whose second section has no step template, and the state the navigator is in
  after the forward transition into that section.
\<close>

definition docStall :: document where
  "docStall = \<lparr>sections = [secB, secEmpty], deviceContent = Some [], outsideLayers = allLayers\<rparr>"

definition stalled :: navState where
  "stalled = \<lparr>sectionIndex = 1, stepIndex = 0, isAnimating = True, activeOutside = [],
      deviceChildren = [\<lparr>nodeId = 0, html = ''<p></p>''\<rparr>], layerNodes = [], tweens = [],
      nextId = 1, uncaught = []\<rparr>"

section \<open>Frame and progress lemmas\<close>

lemma killTweensOf_fields [simp]:
  "sectionIndex (killTweensOf ns s) = sectionIndex s"
  "stepIndex (killTweensOf ns s) = stepIndex s"
  "isAnimating (killTweensOf ns s) = isAnimating s"
  "activeOutside (killTweensOf ns s) = activeOutside s"
  "deviceChildren (killTweensOf ns s) = deviceChildren s"
  "layerNodes (killTweensOf ns s) = layerNodes s"
  "nextId (killTweensOf ns s) = nextId s"
  by (simp_all add: killTweensOf_def)

lemma map_filter_Cons:
  "List.map_filter f (x # xs) = (case f x of None \<Rightarrow> List.map_filter f xs | Some y \<Rightarrow> y # List.map_filter f xs)"
  by (simp add: List.map_filter_def split: option.splits)

lemma killAnim_slides:
  "filter isSlide (List.map_filter (killAnim ns) tw) = filter isSlide tw"
proof (induction tw)
  case Nil
  show ?case by (simp add: List.map_filter_def)
next
  case (Cons a tw)
  then show ?case by (cases a) (simp_all add: map_filter_Cons Let_def)
qed

lemma killAnim_pipeline:
  "length (filter isPipeline (List.map_filter (killAnim ns) tw)) \<le> length (filter isPipeline tw)"
proof (induction tw)
  case Nil
  show ?case by (simp add: List.map_filter_def)
next
  case (Cons a tw)
  then show ?case by (cases a) (simp_all add: map_filter_Cons Let_def)
qed

lemma killAnim_weight:
  "sum_list (map weight (List.map_filter (killAnim ns) tw)) \<le> sum_list (map weight tw)"
proof (induction tw)
  case Nil
  show ?case by (simp add: List.map_filter_def)
next
  case (Cons a tw)
  then show ?case by (cases a) (simp_all add: map_filter_Cons Let_def)
qed

lemma killTweensOf_slides [simp]:
  "filter isSlide (tweens (killTweensOf ns s)) = filter isSlide (tweens s)"
  by (simp add: killTweensOf_def killAnim_slides)

lemma killTweensOf_pipeline:
  "length (filter isPipeline (tweens (killTweensOf ns s))) \<le> length (filter isPipeline (tweens s))"
  by (simp add: killTweensOf_def killAnim_pipeline)

lemma killTweensOf_pending: "pending (killTweensOf ns s) \<le> pending s"
  by (simp add: killTweensOf_def pending_def killAnim_weight)

lemma hideOutsideItem_fields [simp]:
  "sectionIndex (hideOutsideItem it s) = sectionIndex s"
  "stepIndex (hideOutsideItem it s) = stepIndex s"
  "isAnimating (hideOutsideItem it s) = isAnimating s"
  "activeOutside (hideOutsideItem it s) = activeOutside s"
  "deviceChildren (hideOutsideItem it s) = deviceChildren s"
  "layerNodes (hideOutsideItem it s) = layerNodes s"
  "nextId (hideOutsideItem it s) = nextId s"
  by (simp_all add: hideOutsideItem_def Let_def split: prod.splits)

lemma hideOutsideItem_slides [simp]:
  "filter isSlide (tweens (hideOutsideItem it s)) = filter isSlide (tweens s)"
  by (simp add: hideOutsideItem_def Let_def split: prod.splits)

lemma hideOutsideItem_pipeline:
  "length (filter isPipeline (tweens (hideOutsideItem it s))) \<le> length (filter isPipeline (tweens s))"
  by (simp add: hideOutsideItem_def Let_def killTweensOf_pipeline split: prod.splits)

lemma fold_hideOutsideItem_fields [simp]:
  "sectionIndex (fold hideOutsideItem xs s) = sectionIndex s"
  "stepIndex (fold hideOutsideItem xs s) = stepIndex s"
  "isAnimating (fold hideOutsideItem xs s) = isAnimating s"
  "activeOutside (fold hideOutsideItem xs s) = activeOutside s"
  "deviceChildren (fold hideOutsideItem xs s) = deviceChildren s"
  "layerNodes (fold hideOutsideItem xs s) = layerNodes s"
  "nextId (fold hideOutsideItem xs s) = nextId s"
  by (induction xs arbitrary: s; simp)+

lemma fold_hideOutsideItem_slides [simp]:
  "filter isSlide (tweens (fold hideOutsideItem xs s)) = filter isSlide (tweens s)"
  by (induction xs arbitrary: s) simp_all

lemma fold_hideOutsideItem_pipeline:
  "length (filter isPipeline (tweens (fold hideOutsideItem xs s))) \<le> length (filter isPipeline (tweens s))"
proof (induction xs arbitrary: s)
  case Nil
  show ?case by simp
next
  case (Cons x xs)
  have "length (filter isPipeline (tweens (fold hideOutsideItem xs (hideOutsideItem x s))))
          \<le> length (filter isPipeline (tweens (hideOutsideItem x s)))"
    by (rule Cons.IH)
  also have "\<dots> \<le> length (filter isPipeline (tweens s))"
    by (rule hideOutsideItem_pipeline)
  finally show ?case by simp
qed

lemma hideOutside_fields [simp]:
  "sectionIndex (hideOutside s) = sectionIndex s"
  "stepIndex (hideOutside s) = stepIndex s"
  "isAnimating (hideOutside s) = isAnimating s"
  "activeOutside (hideOutside s) = []"
  "deviceChildren (hideOutside s) = deviceChildren s"
  "layerNodes (hideOutside s) = layerNodes s"
  "nextId (hideOutside s) = nextId s"
  by (simp_all add: hideOutside_def)

lemma hideOutside_slides [simp]:
  "filter isSlide (tweens (hideOutside s)) = filter isSlide (tweens s)"
  by (simp add: hideOutside_def)

lemma hideOutside_pipeline:
  "length (filter isPipeline (tweens (hideOutside s))) \<le> length (filter isPipeline (tweens s))"
  by (simp add: hideOutside_def fold_hideOutsideItem_pipeline)

lemma showOutsideTpl_frame:
  assumes "showOutsideTpl d st tpl s = Inr s'"
  shows "sectionIndex s' = sectionIndex s \<and> stepIndex s' = stepIndex s \<and>
         isAnimating s' = isAnimating s \<and> deviceChildren s' = deviceChildren s \<and>
         uncaught s' = uncaught s \<and>
         filter isSlide (tweens s') = filter isSlide (tweens s) \<and>
         filter isPipeline (tweens s') = filter isPipeline (tweens s) \<and>
         pending s' \<le> Suc (pending s)"
  using assms
  by (auto simp: showOutsideTpl_def Let_def pending_def split: if_splits layerValue.splits option.splits)

lemma showOutsideEach_frame:
  "sectionIndex (snd (showOutsideEach d st ts s)) = sectionIndex s \<and>
   stepIndex (snd (showOutsideEach d st ts s)) = stepIndex s \<and>
   isAnimating (snd (showOutsideEach d st ts s)) = isAnimating s \<and>
   deviceChildren (snd (showOutsideEach d st ts s)) = deviceChildren s \<and>
   uncaught (snd (showOutsideEach d st ts s)) = uncaught s \<and>
   filter isSlide (tweens (snd (showOutsideEach d st ts s))) = filter isSlide (tweens s) \<and>
   filter isPipeline (tweens (snd (showOutsideEach d st ts s))) = filter isPipeline (tweens s) \<and>
   pending (snd (showOutsideEach d st ts s)) \<le> pending s + length ts"
proof (induction ts arbitrary: s)
  case Nil
  show ?case by simp
next
  case (Cons t ts)
  show ?case
  proof (cases "showOutsideTpl d st t s")
    case (Inl e)
    then show ?thesis by simp
  next
    case (Inr s')
    from showOutsideTpl_frame [OF Inr] Cons.IH [of s'] Inr show ?thesis
      by simp
  qed
qed

lemma showOutsideCall_tweens:
  "tweens (showOutsideCall d sec st s) = tweens (snd (showOutsideEach d st (getOutsideTemplates sec) s))"
  by (simp add: showOutsideCall_def showOutside_def split: prod.splits option.splits)

lemma showOutside_fields [simp]:
  "sectionIndex (showOutsideCall d sec st s) = sectionIndex s"
  "stepIndex (showOutsideCall d sec st s) = stepIndex s"
  "isAnimating (showOutsideCall d sec st s) = isAnimating s"
  "deviceChildren (showOutsideCall d sec st s) = deviceChildren s"
  using showOutsideEach_frame [of d st "getOutsideTemplates sec" s]
  by (auto simp: showOutsideCall_def showOutside_def split: prod.splits option.splits)

lemma showOutside_slides [simp]:
  "filter isSlide (tweens (showOutsideCall d sec st s)) = filter isSlide (tweens s)"
  using showOutsideEach_frame [of d st "getOutsideTemplates sec" s]
  by (simp add: showOutsideCall_tweens)

lemma showOutside_pipeline [simp]:
  "filter isPipeline (tweens (showOutsideCall d sec st s)) = filter isPipeline (tweens s)"
  using showOutsideEach_frame [of d st "getOutsideTemplates sec" s]
  by (simp add: showOutsideCall_tweens)

lemma showOutside_pending:
  "pending (showOutsideCall d sec st s) \<le> pending s + length (getOutsideTemplates sec)"
  using showOutsideEach_frame [of d st "getOutsideTemplates sec" s]
  by (simp add: pending_def showOutsideCall_tweens)

text \<open>\<^verbatim>\<open>renderDeviceStep\<close> either returns at a guard or starts the fade-out.\<close>

lemma renderDeviceStep_cases:
  "renderDeviceStep sec st s = killTweensOf (deviceChildren s) s \<or>
   (\<exists>n x. renderDeviceStep sec st s =
      (killTweensOf (deviceChildren s) s)
        \<lparr>isAnimating := True, nextId := Suc (nextId s),
         tweens := tweens (killTweensOf (deviceChildren s) s) @ [StepFadeOut (deviceChildren s) n x]\<rparr>)"
  by (auto simp add: renderDeviceStep_def Let_def split: option.splits)

lemma renderDeviceStep_fields [simp]:
  "sectionIndex (renderDeviceStep sec st s) = sectionIndex s"
  "stepIndex (renderDeviceStep sec st s) = stepIndex s"
  "activeOutside (renderDeviceStep sec st s) = activeOutside s"
  "deviceChildren (renderDeviceStep sec st s) = deviceChildren s"
  "layerNodes (renderDeviceStep sec st s) = layerNodes s"
  by (simp_all add: renderDeviceStep_def Let_def split: option.splits)

lemma renderDeviceStep_slides [simp]:
  "filter isSlide (tweens (renderDeviceStep sec st s)) = filter isSlide (tweens s)"
  using renderDeviceStep_cases [of sec st s] by auto

lemma renderDeviceStep_busy: "isAnimating s \<Longrightarrow> isAnimating (renderDeviceStep sec st s)"
  using renderDeviceStep_cases [of sec st s] by auto

lemma renderDeviceStep_pipeline:
  "(isAnimating (renderDeviceStep sec st s) = isAnimating s \<and>
    length (filter isPipeline (tweens (renderDeviceStep sec st s))) \<le> length (filter isPipeline (tweens s)))
   \<or> (isAnimating (renderDeviceStep sec st s) \<and>
    length (filter isPipeline (tweens (renderDeviceStep sec st s))) \<le> Suc (length (filter isPipeline (tweens s))))"
  using renderDeviceStep_cases [of sec st s] killTweensOf_pipeline [of "deviceChildren s" s]
  by auto

lemma renderDeviceStep_pending: "pending (renderDeviceStep sec st s) \<le> pending s + 2"
  using renderDeviceStep_cases [of sec st s] killTweensOf_pending [of "deviceChildren s" s]
  by (auto simp: pending_def)

lemma remove1_pending:
  "a \<in> set tw \<Longrightarrow> sum_list (map weight (remove1 a tw)) + weight a = sum_list (map weight tw)"
  by (induction tw) auto

lemma complete_pending:
  assumes "a \<in> set (tweens s)"
  shows "pending (complete d a s) < pending s"
proof -
  let ?s = "s\<lparr>tweens := remove1 a (tweens s)\<rparr>"
  have r: "pending ?s + weight a = pending s"
    using assms by (simp add: pending_def remove1_pending)
  show ?thesis
  proof (cases a)
    case (SectionSlide c nx ni dir es)
    let ?s1 = "?s\<lparr>sectionIndex := ni, stepIndex := es\<rparr>"
    have "pending (showOutsideCall d nx es (renderDeviceStep nx es ?s1))
            \<le> pending (renderDeviceStep nx es ?s1) + length (getOutsideTemplates nx)"
      by (rule showOutside_pending)
    also have "\<dots> \<le> pending ?s1 + 2 + length (getOutsideTemplates nx)"
      using renderDeviceStep_pending [of nx es ?s1] by simp
    also have "pending ?s1 = pending ?s"
      by (simp add: pending_def)
    finally show ?thesis
      using r assms SectionSlide by (simp add: complete_def Let_def)
  qed (use r assms in \<open>simp_all add: complete_def pending_def\<close>)
qed

termination drain
proof (relation "measure (\<lambda>(d, s). pending s)")
  show "wf (measure (\<lambda>(d, s). pending s))" by simp
next
  fix d :: document and s :: navState and a :: anim and rest :: "anim list"
  assume "tweens s = a # rest"
  then have "a \<in> set (tweens s)" by simp
  then show "((d, complete d a s), (d, s)) \<in> measure (\<lambda>(d, s). pending s)"
    by (simp add: complete_pending)
qed

section \<open>The invariant of reachable states\<close>

lemma getEntryStepIndex_range:
  "0 \<le> getEntryStepIndex sec dir \<and> getEntryStepIndex sec dir \<le> lastStepOf sec"
  by (simp add: getEntryStepIndex_def lastStepOf_def Let_def)

lemma filter_remove1_other: "\<not> P a \<Longrightarrow> filter P (remove1 a xs) = filter P xs"
  by (induction xs) auto

lemma filter_remove1_length:
  "P a \<Longrightarrow> a \<in> set xs \<Longrightarrow> Suc (length (filter P (remove1 a xs))) = length (filter P xs)"
  by (induction xs) auto

lemma list_all_filter_remove1:
  "list_all Q (filter P xs) \<Longrightarrow> list_all Q (filter P (remove1 a xs))"
  by (induction xs) auto

lemma pipeOk_idle: "pipeOk s \<Longrightarrow> \<not> isAnimating s \<Longrightarrow> filter isPipeline (tweens s) = []"
  by (auto simp: pipeOk_def)

lemma hideOutside_pipeOk: "pipeOk s \<Longrightarrow> pipeOk (hideOutside s)"
  using hideOutside_pipeline [of s] by (auto simp: pipeOk_def)

lemma hideOutside_idle:
  "filter isPipeline (tweens s) = [] \<Longrightarrow> filter isPipeline (tweens (hideOutside s)) = []"
  using hideOutside_pipeline [of s] by simp

lemma showOutside_pipeOk: "pipeOk s \<Longrightarrow> pipeOk (showOutsideCall d sec st s)"
  by (simp add: pipeOk_def)

lemma renderDeviceStep_pipeOk:
  "filter isPipeline (tweens s) = [] \<Longrightarrow> pipeOk (renderDeviceStep sec st s)"
  using renderDeviceStep_pipeline [of sec st s] by (auto simp: pipeOk_def)

lemma hideOutside_navInv: "navInv d s \<Longrightarrow> navInv d (hideOutside s)"
  by (simp add: navInv_def positionOk_def slidesOk_def hideOutside_pipeOk)

text \<open>A step inside the section: what \<^verbatim>\<open>goForward\<close> and \<^verbatim>\<open>goBackward\<close> share.\<close>

lemma stepTo_navInv:
  assumes "navInv d s" and "\<not> isAnimating s"
    and "0 \<le> k" and "k \<le> lastStepOf (sections d ! nat (sectionIndex s))"
  shows "navInv d (showOutsideCall d sec k (renderDeviceStep sec k (hideOutside (s\<lparr>stepIndex := k\<rparr>))))"
proof -
  let ?s1 = "s\<lparr>stepIndex := k\<rparr>"
  have idle: "filter isPipeline (tweens (hideOutside ?s1)) = []"
    using assms(1,2) by (intro hideOutside_idle) (simp add: navInv_def pipeOk_def)
  have "pipeOk (renderDeviceStep sec k (hideOutside ?s1))"
    using idle by (rule renderDeviceStep_pipeOk)
  then have "pipeOk (showOutsideCall d sec k (renderDeviceStep sec k (hideOutside ?s1)))"
    by (rule showOutside_pipeOk)
  moreover have "slidesOk d (showOutsideCall d sec k (renderDeviceStep sec k (hideOutside ?s1)))"
    using assms(1) by (simp add: navInv_def slidesOk_def)
  moreover have "positionOk d (showOutsideCall d sec k (renderDeviceStep sec k (hideOutside ?s1)))"
    using assms by (simp add: navInv_def positionOk_def)
  ultimately show ?thesis by (simp add: navInv_def)
qed

lemma goToSection_started:
  assumes "0 \<le> ni" and "ni < int (length (sections d))" and "\<not> isAnimating s"
  shows "goToSection d ni dir s =
     (hideOutside (s\<lparr>isAnimating := True\<rparr>))
       \<lparr>tweens := tweens (hideOutside (s\<lparr>isAnimating := True\<rparr>)) @
          [SectionSlide (sectionIndex s) (sections d ! nat ni) ni dir
             (getEntryStepIndex (sections d ! nat ni) dir)]\<rparr>"
  using assms by (simp add: goToSection_def Let_def)

lemma goToSection_navInv:
  assumes "navInv d s" and "\<not> isAnimating s" and "0 \<le> ni" and "ni < int (length (sections d))"
  shows "navInv d (goToSection d ni dir (hideOutside s))"
proof -
  let ?h = "hideOutside ((hideOutside s)\<lparr>isAnimating := True\<rparr>)"
  have eq: "goToSection d ni dir (hideOutside s) =
      ?h\<lparr>tweens := tweens ?h @ [SectionSlide (sectionIndex s) (sections d ! nat ni) ni dir
             (getEntryStepIndex (sections d ! nat ni) dir)]\<rparr>"
    using assms(2-4) goToSection_started [of ni d "hideOutside s" dir] by simp
  have "filter isPipeline (tweens (hideOutside s)) = []"
    using assms(1,2) by (intro hideOutside_idle) (simp add: navInv_def pipeOk_def)
  then have "filter isPipeline (tweens ((hideOutside s)\<lparr>isAnimating := True\<rparr>)) = []"
    by simp
  then have idle: "filter isPipeline (tweens ?h) = []"
    by (rule hideOutside_idle)
  have "slidesOk d ?h"
    using assms(1) by (simp add: navInv_def slidesOk_def)
  then show ?thesis
    using assms idle unfolding eq
    by (simp add: navInv_def positionOk_def slidesOk_def pipeOk_def)
qed

lemma goForward_navInv:
  assumes "navInv d s" and "goForward d s = Inr s'"
  shows "navInv d s'"
proof (cases "isAnimating s")
  case True
  with assms show ?thesis by (simp add: goForward_def)
next
  case False
  from assms(1) have pos: "positionOk d s" by (simp add: navInv_def)
  then have look: "nthOpt (sections d) (sectionIndex s) = Some (sections d ! nat (sectionIndex s))"
    by (simp add: positionOk_def nthOpt_def)
  let ?sec = "sections d ! nat (sectionIndex s)"
  show ?thesis
  proof (cases "stepIndex s < int (length (getStepTemplates ?sec)) - 1")
    case True
    then have "stepIndex s + 1 \<le> lastStepOf ?sec" and "0 \<le> stepIndex s + 1"
      using pos by (simp_all add: lastStepOf_def positionOk_def)
    then have "navInv d (showOutsideCall d ?sec (stepIndex s + 1)
        (renderDeviceStep ?sec (stepIndex s + 1) (hideOutside (s\<lparr>stepIndex := stepIndex s + 1\<rparr>))))"
      using assms(1) False by (intro stepTo_navInv) simp_all
    with assms(2) False True look show ?thesis
      by (simp add: goForward_def Let_def)
  next
    case noStep: False
    show ?thesis
    proof (cases "sectionIndex s < int (length (sections d)) - 1")
      case True
      have "navInv d (goToSection d (sectionIndex s + 1) 1 (hideOutside s))"
        using assms(1) False True pos by (intro goToSection_navInv) (simp_all add: positionOk_def)
      with assms(2) False noStep True look show ?thesis
        by (simp add: goForward_def Let_def)
    next
      case False
      with assms \<open>\<not> isAnimating s\<close> noStep look show ?thesis
        by (simp add: goForward_def Let_def)
    qed
  qed
qed

lemma goBackward_navInv:
  assumes "navInv d s" and "goBackward d s = Inr s'"
  shows "navInv d s'"
proof (cases "isAnimating s")
  case True
  with assms show ?thesis by (simp add: goBackward_def)
next
  case False
  from assms(1) have pos: "positionOk d s" by (simp add: navInv_def)
  then have look: "nthOpt (sections d) (sectionIndex s) = Some (sections d ! nat (sectionIndex s))"
    by (simp add: positionOk_def nthOpt_def)
  let ?sec = "sections d ! nat (sectionIndex s)"
  show ?thesis
  proof (cases "stepIndex s > 0")
    case True
    then have "stepIndex s - 1 \<le> lastStepOf ?sec" and "0 \<le> stepIndex s - 1"
      using pos by (simp_all add: positionOk_def)
    then have "navInv d (showOutsideCall d ?sec (stepIndex s - 1)
        (renderDeviceStep ?sec (stepIndex s - 1) (hideOutside (s\<lparr>stepIndex := stepIndex s - 1\<rparr>))))"
      using assms(1) False by (intro stepTo_navInv) simp_all
    with assms(2) False True look show ?thesis
      by (simp add: goBackward_def Let_def)
  next
    case noStep: False
    show ?thesis
    proof (cases "sectionIndex s > 0")
      case True
      have "navInv d (goToSection d (sectionIndex s - 1) (- 1) (hideOutside s))"
        using assms(1) False True pos by (intro goToSection_navInv) (simp_all add: positionOk_def)
      with assms(2) False noStep True show ?thesis
        by (simp add: goBackward_def Let_def)
    next
      case False
      with assms \<open>\<not> isAnimating s\<close> noStep show ?thesis
        by (simp add: goBackward_def Let_def)
    qed
  qed
qed

lemma complete_navInv:
  assumes "navInv d s" and "a \<in> set (tweens s)"
  shows "navInv d (complete d a s)"
proof -
  let ?r = "s\<lparr>tweens := remove1 a (tweens s)\<rparr>"
  from assms(1) have pos: "positionOk d s" and sl: "slidesOk d s" and pp: "pipeOk s"
    by (simp_all add: navInv_def)
  have sl': "slidesOk d ?r"
    using sl by (simp add: slidesOk_def list_all_filter_remove1)
  show ?thesis
  proof (cases a)
    case (OutsideEnter n v)
    then show ?thesis
      using assms pos sl' pp
      by (simp add: complete_def navInv_def positionOk_def slidesOk_def pipeOk_def filter_remove1_other)
  next
    case (OutsideExit n v)
    then show ?thesis
      using assms pos sl' pp
      by (simp add: complete_def navInv_def positionOk_def slidesOk_def pipeOk_def filter_remove1_other)
  next
    case (StepFadeOut ts n x)
    then have "Suc (length (filter isPipeline (remove1 a (tweens s)))) = length (filter isPipeline (tweens s))"
      using assms(2) by (intro filter_remove1_length) simp_all
    moreover have "filter isPipeline (tweens s) \<noteq> []"
      using assms(2) StepFadeOut by (force simp: filter_empty_conv)
    ultimately show ?thesis
      using StepFadeOut assms pos sl' pp
      by (simp add: complete_def navInv_def positionOk_def slidesOk_def pipeOk_def)
  next
    case (StepEnter n x)
    then have "Suc (length (filter isPipeline (remove1 a (tweens s)))) = length (filter isPipeline (tweens s))"
      using assms(2) by (intro filter_remove1_length) simp_all
    then have "length (filter isPipeline (remove1 a (tweens s))) = 0"
      using pp unfolding pipeOk_def by linarith
    then have "filter isPipeline (remove1 a (tweens s)) = []"
      by simp
    then show ?thesis
      using StepEnter assms pos sl' pp
      by (simp add: complete_def navInv_def positionOk_def slidesOk_def pipeOk_def)
  next
    case (SectionSlide c nx ni dir es)
    then have "Suc (length (filter isPipeline (remove1 a (tweens s)))) = length (filter isPipeline (tweens s))"
      using assms(2) by (intro filter_remove1_length) simp_all
    then have "length (filter isPipeline (remove1 a (tweens s))) = 0"
      using pp unfolding pipeOk_def by linarith
    then have idle: "filter isPipeline (tweens (?r\<lparr>sectionIndex := ni, stepIndex := es\<rparr>)) = []"
      by simp
    have ok: "slideOk d a"
      using sl assms(2) SectionSlide by (force simp: slidesOk_def list_all_iff)
    let ?s1 = "?r\<lparr>sectionIndex := ni, stepIndex := es\<rparr>"
    have "pipeOk (renderDeviceStep nx es ?s1)"
      using idle by (rule renderDeviceStep_pipeOk)
    then have "pipeOk (showOutsideCall d nx es (renderDeviceStep nx es ?s1))"
      by (rule showOutside_pipeOk)
    moreover have "slidesOk d (showOutsideCall d nx es (renderDeviceStep nx es ?s1))"
      using sl' by (simp add: slidesOk_def)
    moreover have "positionOk d (showOutsideCall d nx es (renderDeviceStep nx es ?s1))"
      using ok SectionSlide getEntryStepIndex_range [of nx dir] by (simp add: positionOk_def)
    ultimately show ?thesis
      using SectionSlide assms(2) by (simp add: complete_def navInv_def Let_def)
  qed
qed

lemma initState_navInv:
  assumes "sections d \<noteq> []"
  shows "navInv d (initState d hs)"
proof -
  let ?s0 = "\<lparr>sectionIndex = 0, stepIndex = 0, isAnimating = False, activeOutside = [],
               deviceChildren = initialChildren hs, layerNodes = [], tweens = [],
               nextId = length hs, uncaught = []\<rparr>"
  have "pipeOk (renderDeviceStep (sections d ! 0) 0 ?s0)"
    by (rule renderDeviceStep_pipeOk) simp
  then have "pipeOk (initState d hs)"
    by (simp add: initState_def Let_def showOutside_pipeOk)
  moreover have "slidesOk d (initState d hs)"
    by (simp add: initState_def Let_def slidesOk_def)
  moreover have "positionOk d (initState d hs)"
    using assms by (simp add: initState_def Let_def positionOk_def lastStepOf_def)
  ultimately show ?thesis by (simp add: navInv_def)
qed

lemma reachable_navInv: "reachable d s \<Longrightarrow> navInv d s"
proof (induction rule: reachable.induct)
  case (r_init hs)
  then show ?case by (simp add: initState_navInv)
next
  case (r_forward s s')
  then show ?case by (blast intro: goForward_navInv)
next
  case (r_backward s s')
  then show ?case by (blast intro: goBackward_navInv)
next
  case (r_complete s a)
  then show ?case by (simp add: complete_navInv)
next
  case (r_destroy s)
  then show ?case by (simp add: hideOutside_navInv)
qed

section \<open>Running the engine\<close>

lemma drain_Nil: "tweens s = [] \<Longrightarrow> drain d s = s"
  by simp

lemma drain_Cons: "tweens s = a # rest \<Longrightarrow> drain d s = drain d (complete d a s)"
  by simp

declare drain.simps [simp del]

lemma reachable_drain: "reachable d s \<Longrightarrow> reachable d (drain d s)"
proof (induction d s rule: drain.induct)
  case (1 d s)
  show ?case
  proof (cases "tweens s")
    case Nil
    with 1 show ?thesis by (simp add: drain_Nil)
  next
    case (Cons a rest)
    then have "reachable d (complete d a s)"
      using "1.prems" by (intro r_complete) simp_all
    then have "reachable d (drain d (complete d a s))"
      using Cons by (intro "1.IH")
    then show ?thesis using Cons by (simp add: drain_Cons)
  qed
qed

lemma settledA_drain: "drain docAB (initState docAB []) = settledA"
  by code_simp

lemma reachable_settledA: "reachable docAB settledA"
proof -
  have "reachable docAB (initState docAB [])"
    by (rule r_init) (simp_all add: docAB_def)
  then have "reachable docAB (drain docAB (initState docAB []))"
    by (rule reachable_drain)
  then show ?thesis by (simp add: settledA_drain)
qed

lemma drain_noSlide:
  "filter isSlide (tweens s) = [] \<Longrightarrow>
   sectionIndex (drain d s) = sectionIndex s \<and> stepIndex (drain d s) = stepIndex s \<and>
   tweens (drain d s) = [] \<and>
   (isAnimating (drain d s) \<longrightarrow> isAnimating s \<and> filter isPipeline (tweens s) = [])"
proof (induction d s rule: drain.induct)
  case (1 d s)
  show ?case
  proof (cases "tweens s")
    case Nil
    then show ?thesis by (simp add: drain_Nil)
  next
    case (Cons a rest)
    have d: "drain d s = drain d (complete d a s)"
      using Cons by (rule drain_Cons)
    have c: "complete d a s = onComplete d a (s\<lparr>tweens := rest\<rparr>)"
      using Cons by (simp add: complete_def)
    have ns: "\<not> isSlide a" and nr: "filter isSlide rest = []"
      using "1.prems" Cons by (auto split: if_splits)
    show ?thesis
    proof (cases a)
      case (OutsideEnter n v)
      with "1.IH" [OF Cons] nr c show ?thesis unfolding d by (simp add: Cons)
    next
      case (OutsideExit n v)
      with "1.IH" [OF Cons] nr c show ?thesis unfolding d by (simp add: Cons)
    next
      case (StepFadeOut ts n x)
      with "1.IH" [OF Cons] nr c show ?thesis unfolding d by (simp add: Cons)
    next
      case (StepEnter n x)
      with "1.IH" [OF Cons] nr c show ?thesis unfolding d by (simp add: Cons)
    next
      case (SectionSlide c nx ni dir es)
      with ns show ?thesis by simp
    qed
  qed
qed

lemma idle_no_slide: "pipeOk s \<Longrightarrow> \<not> isAnimating s \<Longrightarrow> filter isSlide (tweens s) = []"
proof -
  assume "pipeOk s" and "\<not> isAnimating s"
  then have "filter isPipeline (tweens s) = []"
    by (rule pipeOk_idle)
  moreover have "isSlide a \<Longrightarrow> isPipeline a" for a
    by (cases a) simp_all
  ultimately show ?thesis
    by (auto simp: filter_empty_conv)
qed

text \<open>
  In a reachable state the section looked up by \<^verbatim>\<open>goForward\<close> and \<^verbatim>\<open>goBackward\<close>
  exists, so neither handler throws.
\<close>

lemma reachable_no_error:
  assumes "reachable d s"
  shows "(\<exists>s'. goForward d s = Inr s') \<and> (\<exists>s'. goBackward d s = Inr s')"
proof -
  have "positionOk d s"
    using assms reachable_navInv by (simp add: navInv_def)
  then have "nthOpt (sections d) (sectionIndex s) = Some (sections d ! nat (sectionIndex s))"
    by (simp add: positionOk_def nthOpt_def)
  then show ?thesis
    by (simp add: goForward_def goBackward_def Let_def)
qed



lemma reachable_forwardSettled:
  "reachable d s \<Longrightarrow> forwardSettled d k s = Inr s' \<Longrightarrow> reachable d s'"
proof (induction k arbitrary: s)
  case 0
  then show ?case by simp
next
  case (Suc k)
  then obtain t where t: "goForward d s = Inr t" "forwardSettled d k (drain d t) = Inr s'"
    by (auto split: sum.splits)
  then have "reachable d (drain d t)"
    using Suc.prems(1) by (blast intro: r_forward reachable_drain)
  with t Suc.IH show ?case by blast
qed

lemma midA_reached: "forwardSettled docAB 1 settledA = Inr midA"
  by code_simp

lemma endA_reached: "forwardSettled docAB 2 settledA = Inr endA"
  by code_simp

lemma busyEndA_reached: "goForward docAB midA = Inr busyEndA"
  by code_simp


lemma reachable_busyEndA: "reachable docAB busyEndA"
  using reachable_settledA midA_reached busyEndA_reached
  by (blast intro: reachable_forwardSettled r_forward)


lemma reachable_endA: "reachable docAB endA"
  using reachable_settledA endA_reached by (blast intro: reachable_forwardSettled)

section \<open>Steps inside a section\<close>

lemma goForward_step:
  assumes "\<not> isAnimating s" and "nthOpt (sections d) (sectionIndex s) = Some sec"
    and "stepIndex s < int (length (getStepTemplates sec)) - 1"
  shows "goForward d s = Inr (showOutsideCall d sec (stepIndex s + 1)
           (renderDeviceStep sec (stepIndex s + 1) (hideOutside (s\<lparr>stepIndex := stepIndex s + 1\<rparr>))))"
  using assms by (simp add: goForward_def Let_def)

lemma goBackward_step:
  assumes "\<not> isAnimating s" and "nthOpt (sections d) (sectionIndex s) = Some sec"
    and "0 < stepIndex s"
  shows "goBackward d s = Inr (showOutsideCall d sec (stepIndex s - 1)
           (renderDeviceStep sec (stepIndex s - 1) (hideOutside (s\<lparr>stepIndex := stepIndex s - 1\<rparr>))))"
  using assms by (simp add: goBackward_def Let_def)

lemma renderDeviceStep_starts:
  assumes "nthOpt (getStepTemplates sec) st = Some tpl" and "stContent tpl \<noteq> None"
  shows "isAnimating (renderDeviceStep sec st s)"
  using assms by (auto simp: renderDeviceStep_def Let_def)

lemma step_busy_has_pipeline:
  assumes "\<not> isAnimating s"
  shows "isAnimating (showOutsideCall d sec k (renderDeviceStep sec k (hideOutside s))) \<longrightarrow>
         filter isPipeline (tweens (showOutsideCall d sec k (renderDeviceStep sec k (hideOutside s)))) \<noteq> []"
  using assms renderDeviceStep_cases [of sec k "hideOutside s"] by auto

lemma step_then_drain:
  assumes "\<not> isAnimating s" and "filter isSlide (tweens s) = []"
    and "nthOpt (sections d) (sectionIndex s) = Some sec"
    and "stepIndex s < int (length (getStepTemplates sec)) - 1"
  shows "\<exists>t. goForward d s = Inr t \<and> stepIndex t = stepIndex s + 1 \<and>
           sectionIndex t = sectionIndex s \<and> filter isSlide (tweens t) = [] \<and>
           \<not> isAnimating (drain d t) \<and> stepIndex (drain d t) = stepIndex s + 1 \<and>
           sectionIndex (drain d t) = sectionIndex s \<and> tweens (drain d t) = []"
proof -
  let ?s1 = "s\<lparr>stepIndex := stepIndex s + 1\<rparr>"
  let ?t = "showOutsideCall d sec (stepIndex s + 1) (renderDeviceStep sec (stepIndex s + 1) (hideOutside ?s1))"
  have g: "goForward d s = Inr ?t"
    using assms(1,3,4) by (rule goForward_step)
  have sl: "filter isSlide (tweens ?t) = []"
    using assms(2) by simp
  have "isAnimating ?t \<longrightarrow> filter isPipeline (tweens ?t) \<noteq> []"
    using assms(1) by (intro step_busy_has_pipeline) simp
  then have "\<not> isAnimating (drain d ?t)"
    using drain_noSlide [OF sl, of d] by blast
  then show ?thesis
    using g sl drain_noSlide [OF sl, of d] by simp
qed

lemma forwardSettled_steps:
  assumes "\<not> isAnimating s" and "filter isSlide (tweens s) = []"
    and "nthOpt (sections d) (sectionIndex s) = Some sec"
    and "stepIndex s + int k \<le> int (length (getStepTemplates sec)) - 1"
  shows "\<exists>s'. forwardSettled d k s = Inr s' \<and> stepIndex s' = stepIndex s + int k \<and>
           sectionIndex s' = sectionIndex s \<and> \<not> isAnimating s' \<and> filter isSlide (tweens s') = []"
  using assms
proof (induction k arbitrary: s)
  case 0
  then show ?case by simp
next
  case (Suc k)
  have "stepIndex s < int (length (getStepTemplates sec)) - 1"
    using Suc.prems(4) by simp
  from step_then_drain [OF Suc.prems(1-3) this]
  obtain t where t: "goForward d s = Inr t" "\<not> isAnimating (drain d t)"
      "stepIndex (drain d t) = stepIndex s + 1" "sectionIndex (drain d t) = sectionIndex s"
      "tweens (drain d t) = []"
    by blast
  have "\<exists>s'. forwardSettled d k (drain d t) = Inr s' \<and>
      stepIndex s' = stepIndex (drain d t) + int k \<and>
      sectionIndex s' = sectionIndex (drain d t) \<and> \<not> isAnimating s' \<and> filter isSlide (tweens s') = []"
    using t Suc.prems(3,4) by (intro Suc.IH) simp_all
  then show ?case
    using t by auto
qed

text \<open>
  Claim C1, as the code has it. Take a reachable state that is not busy, at step 0 of a
  section with \<open>N\<close> step templates. If each \<^verbatim>\<open>goForward\<close> call is made once the
  animations of the call before have completed, then for every \<open>k < N\<close> the state after
  \<open>k\<close> calls is at step \<open>k\<close> of the same section, not busy and with no section timeline
  pending; and while \<open>k + 1 < N\<close> the next call moves to step \<open>k + 1\<close> exactly, stays
  in the section and starts no section timeline.
\<close>

theorem forward_steps_when_settled:
  assumes "reachable d s" and "\<not> isAnimating s" and "stepIndex s = 0"
    and "k < length (getStepTemplates (sections d ! nat (sectionIndex s)))"
  shows "\<exists>s'. forwardSettled d k s = Inr s' \<and> positionOf (Inr s') = Some (sectionIndex s, int k) \<and>
           \<not> isAnimating s' \<and> filter isSlide (tweens s') = [] \<and>
           (Suc k < length (getStepTemplates (sections d ! nat (sectionIndex s))) \<longrightarrow>
              (\<exists>t. goForward d s' = Inr t \<and> positionOf (Inr t) = Some (sectionIndex s, int k + 1) \<and>
                   filter isSlide (tweens t) = []))"
proof -
  let ?sec = "sections d ! nat (sectionIndex s)"
  have inv: "navInv d s"
    using assms(1) by (rule reachable_navInv)
  then have look: "nthOpt (sections d) (sectionIndex s) = Some ?sec"
    by (simp add: navInv_def positionOk_def nthOpt_def)
  have idle: "filter isSlide (tweens s) = []"
    using inv assms(2) by (simp add: navInv_def idle_no_slide)
  have "stepIndex s + int k \<le> int (length (getStepTemplates ?sec)) - 1"
    using assms(3,4) by simp
  from forwardSettled_steps [OF assms(2) idle look this]
  obtain s' where s': "forwardSettled d k s = Inr s'" "stepIndex s' = int k"
      "sectionIndex s' = sectionIndex s" "\<not> isAnimating s'" "filter isSlide (tweens s') = []"
    using assms(3) by auto
  have "Suc k < length (getStepTemplates ?sec) \<longrightarrow>
      (\<exists>t. goForward d s' = Inr t \<and> positionOf (Inr t) = Some (sectionIndex s, int k + 1) \<and>
           filter isSlide (tweens t) = [])"
  proof
    assume "Suc k < length (getStepTemplates ?sec)"
    then have "stepIndex s' < int (length (getStepTemplates ?sec)) - 1"
      using s'(2) by simp
    from step_then_drain [OF s'(4,5) _ this, of d] look s'(2,3)
    show "\<exists>t. goForward d s' = Inr t \<and> positionOf (Inr t) = Some (sectionIndex s, int k + 1) \<and>
           filter isSlide (tweens t) = []"
      by auto
  qed
  with s' show ?thesis by simp
qed

theorem forward_steps_when_settled_witness:
  "reachable docAB settledA \<and> \<not> isAnimating settledA \<and> stepIndex settledA = 0 \<and>
   length (getStepTemplates (sections docAB ! nat (sectionIndex settledA))) = 3 \<and>
   (\<exists>s'. forwardSettled docAB 2 settledA = Inr s' \<and> positionOf (Inr s') = Some (0, 2) \<and>
         \<not> isAnimating s') \<and>
   (\<exists>s' t. forwardSettled docAB 1 settledA = Inr s' \<and> positionOf (Inr s') = Some (0, 1) \<and>
         goForward docAB s' = Inr t \<and> positionOf (Inr t) = Some (0, 2))"
proof -
  have h1: "\<not> isAnimating settledA" and h2: "stepIndex settledA = 0"
    and h3: "2 < length (getStepTemplates (sections docAB ! nat (sectionIndex settledA)))"
    and h4: "1 < length (getStepTemplates (sections docAB ! nat (sectionIndex settledA)))"
    and h5: "length (getStepTemplates (sections docAB ! nat (sectionIndex settledA))) = 3"
    and h6: "sectionIndex settledA = 0"
    by (simp_all add: settledA_def docAB_def secA_def getStepTemplates_def)
  from forward_steps_when_settled [OF reachable_settledA h1 h2 h3]
    forward_steps_when_settled [OF reachable_settledA h1 h2 h4]
    reachable_settledA h1 h2 h5 h6
  show ?thesis by (simp del: forwardSettled.simps) blast
qed

text \<open>
  Claim C1, as stated, fails when the calls follow each other at once. On \<open>docAB\<close>,
  at rest on step 0 of the three-step section A, the first call renders step 1 and sets
  \<^verbatim>\<open>isAnimating\<close>; the second call returns at the guard, so two calls end at step 1.
\<close>

theorem forward_twice_counterexample:
  "\<not> isAnimating settledA \<and> positionOf (Inr settledA) = Some (0, 0) \<and>
   length (getStepTemplates (sections docAB ! 0)) = 3 \<and>
   positionOf (run docAB [Forward, Forward] settledA) = Some (0, 1)"
  by code_simp

section \<open>Section transitions\<close>

lemma lastStep_noStep:
  "stepIndex s = lastStepOf sec \<Longrightarrow> \<not> stepIndex s < int (length (getStepTemplates sec)) - 1"
  by (simp add: lastStepOf_def)

lemma complete_last_slide:
  assumes "tweens s1 = tw @ [SectionSlide c nx ni dir es]"
  shows "sectionIndex (complete d (last (tweens s1)) s1) = ni \<and>
         stepIndex (complete d (last (tweens s1)) s1) = es"
  using assms by (simp add: complete_def Let_def)

text \<open>
  Claim C2, as the code has it. From the last step of section \<open>i\<close>, with a section
  after it and the navigator not busy, \<^verbatim>\<open>goForward\<close> sets the busy flag and starts the section timeline,
  leaving the position as it is; when the timeline's content callback runs, the position
  becomes \<open>(i + 1, min 1 (lastStepOf (i + 1)))\<close>: step 1 if the target section has at
  least two steps, step 0 otherwise.
\<close>

theorem forward_enters_next_section:
  assumes "\<not> isAnimating s"
    and "0 \<le> sectionIndex s" and "sectionIndex s < int (length (sections d)) - 1"
    and "stepIndex s = lastStepOf (sections d ! nat (sectionIndex s))"
  shows "\<exists>s1. goForward d s = Inr s1 \<and> isAnimating s1 \<and>
      sectionIndex s1 = sectionIndex s \<and> stepIndex s1 = stepIndex s \<and>
      tweens s1 \<noteq> [] \<and> isSlide (last (tweens s1)) \<and>
      sectionIndex (complete d (last (tweens s1)) s1) = sectionIndex s + 1 \<and>
      stepIndex (complete d (last (tweens s1)) s1)
        = min 1 (lastStepOf (sections d ! nat (sectionIndex s + 1))) \<and>
      stepIndex (complete d (last (tweens s1)) s1)
        = (if 2 \<le> length (getStepTemplates (sections d ! nat (sectionIndex s + 1))) then 1 else 0)"
proof -
  let ?sec = "sections d ! nat (sectionIndex s)"
  let ?ni = "sectionIndex s + 1"
  let ?nx = "sections d ! nat ?ni"
  let ?h = "hideOutside ((hideOutside s)\<lparr>isAnimating := True\<rparr>)"
  let ?a = "SectionSlide (sectionIndex s) ?nx ?ni 1 (getEntryStepIndex ?nx 1)"
  let ?s1 = "?h\<lparr>tweens := tweens ?h @ [?a]\<rparr>"
  have look: "nthOpt (sections d) (sectionIndex s) = Some ?sec"
    using assms(2,3) by (simp add: nthOpt_def)
  have go: "goToSection d ?ni 1 (hideOutside s) = ?s1"
    using assms(1-3) goToSection_started [of ?ni d "hideOutside s" 1] by simp
  have fw: "goForward d s = Inr ?s1"
    using assms(1,3) look lastStep_noStep [OF assms(4)] go
    by (simp add: goForward_def Let_def)
  have tw: "tweens ?s1 = tweens ?h @ [?a]" by simp
  have e: "getEntryStepIndex ?nx 1 = min 1 (lastStepOf ?nx)"
    by (simp add: getEntryStepIndex_def lastStepOf_def Let_def)
  have e2: "min 1 (lastStepOf ?nx) = (if 2 \<le> length (getStepTemplates ?nx) then 1 else 0)"
    by (simp add: lastStepOf_def)
  have "isAnimating ?s1 \<and> sectionIndex ?s1 = sectionIndex s \<and> stepIndex ?s1 = stepIndex s \<and>
      tweens ?s1 \<noteq> [] \<and> isSlide (last (tweens ?s1))"
    by simp
  moreover have "sectionIndex (complete d (last (tweens ?s1)) ?s1) = ?ni \<and>
      stepIndex (complete d (last (tweens ?s1)) ?s1) = getEntryStepIndex ?nx 1"
    using tw by (rule complete_last_slide)
  ultimately show ?thesis
    using fw e e2 by (intro exI [of _ ?s1]) (simp only: simp_thms)
qed

theorem forward_enters_next_section_witness:
  "\<not> isAnimating endA \<and> stepIndex endA = lastStepOf (sections docAB ! nat (sectionIndex endA)) \<and>
   (\<exists>s1. goForward docAB endA = Inr s1 \<and> isAnimating s1 \<and>
      positionOf (Inr s1) = Some (0, 2) \<and>
      positionOf (Inr (complete docAB (last (tweens s1)) s1)) = Some (1, 0))"
proof -
  have h1: "\<not> isAnimating endA" and h2: "0 \<le> sectionIndex endA"
    and h3: "sectionIndex endA < int (length (sections docAB)) - 1"
    and h4: "stepIndex endA = lastStepOf (sections docAB ! nat (sectionIndex endA))"
    by (simp_all add: endA_def docAB_def secA_def lastStepOf_def getStepTemplates_def)
  have l: "lastStepOf (sections docAB ! nat (sectionIndex endA + 1)) = 0"
    by (simp add: endA_def docAB_def secB_def lastStepOf_def getStepTemplates_def)
  from forward_enters_next_section [OF h1 h2 h3 h4] l h1 h4 show ?thesis
    by (auto simp: endA_def)
qed

text \<open>
  Claim C2, as stated, fails in a busy state. On \<open>docAB\<close> the step forward from step 1
  leaves the navigator on step 2, the last step of section A, with the content animation
  in flight. A \<^verbatim>\<open>goForward\<close> there returns at the guard: no section timeline is started,
  and when every pending animation has completed the position is still \<open>(0, 2)\<close>.
\<close>

theorem busy_last_step_counterexample:
  "reachable docAB busyEndA \<and> positionOf (Inr busyEndA) = Some (0, 2) \<and>
   lastStepOf (sections docAB ! 0) = 2 \<and> length (sections docAB) = 2 \<and>
   goForward docAB busyEndA = Inr busyEndA \<and>
   filter isSlide (tweens busyEndA) = [] \<and>
   positionOf (Inr (drain docAB busyEndA)) = Some (0, 2)"
proof -
  have "positionOf (Inr busyEndA) = Some (0, 2) \<and>
     lastStepOf (sections docAB ! 0) = 2 \<and> length (sections docAB) = 2 \<and>
     goForward docAB busyEndA = Inr busyEndA \<and>
     filter isSlide (tweens busyEndA) = [] \<and>
     positionOf (Inr (drain docAB busyEndA)) = Some (0, 2)"
    by code_simp
  with reachable_busyEndA show ?thesis by simp
qed




section \<open>Requests that do nothing\<close>

text \<open>
  Claim C4. When the navigator is not busy, \<^verbatim>\<open>goBackward\<close> at section 0, step 0 and
  \<^verbatim>\<open>goForward\<close> at the last step of the last section return the state they were given:
  position, busy flag, active outside set, page content and the list of animations in
  flight are all unchanged, so no animation has been started.
\<close>

theorem boundary_noop:
  "(\<not> isAnimating s \<and> sectionIndex s = 0 \<and> stepIndex s = 0 \<longrightarrow> goBackward d s = Inr s) \<and>
   (\<not> isAnimating s \<and> sections d \<noteq> [] \<and> sectionIndex s = int (length (sections d)) - 1 \<and>
    stepIndex s = lastStepOf (last (sections d)) \<longrightarrow> goForward d s = Inr s)"
proof (intro conjI impI)
  assume "\<not> isAnimating s \<and> sectionIndex s = 0 \<and> stepIndex s = 0"
  then show "goBackward d s = Inr s"
    by (simp add: goBackward_def)
next
  assume a: "\<not> isAnimating s \<and> sections d \<noteq> [] \<and> sectionIndex s = int (length (sections d)) - 1 \<and>
    stepIndex s = lastStepOf (last (sections d))"
  then have "nat (sectionIndex s) = length (sections d) - 1"
    by simp
  then have "nthOpt (sections d) (sectionIndex s) = Some (last (sections d))"
    using a by (simp add: nthOpt_def last_conv_nth)
  then show "goForward d s = Inr s"
    using a by (simp add: goForward_def Let_def lastStepOf_def)
qed

theorem boundary_noop_witness:
  "goBackward docAB settledA = Inr settledA \<and> goForward docAB lastB = Inr lastB"
proof -
  have "\<not> isAnimating settledA \<and> sectionIndex settledA = 0 \<and> stepIndex settledA = 0"
    by (simp add: settledA_def)
  moreover have "\<not> isAnimating lastB \<and> sections docAB \<noteq> [] \<and>
      sectionIndex lastB = int (length (sections docAB)) - 1 \<and>
      stepIndex lastB = lastStepOf (last (sections docAB))"
    by (simp add: lastB_def docAB_def secB_def lastStepOf_def getStepTemplates_def)
  ultimately show ?thesis
    using boundary_noop [of settledA docAB] boundary_noop [of lastB docAB] by blast
qed

text \<open>
  Claim C5. While \<^verbatim>\<open>isAnimating\<close> is true, \<^verbatim>\<open>goForward\<close> and \<^verbatim>\<open>goBackward\<close> return
  the state they were given: nothing changes, no animation is started, and the state has
  no place where the request could wait. Hence in every reachable state at most one
  navigation animation (section timeline, content fade-out or content entry) is in
  flight: two section transitions never overlap.
\<close>

theorem busy_drops_advance:
  "(isAnimating s \<longrightarrow> goForward d s = Inr s \<and> goBackward d s = Inr s) \<and>
   (reachable d s \<longrightarrow> length (filter isPipeline (tweens s)) \<le> 1)"
proof (intro conjI impI)
  assume "reachable d s"
  then have "navInv d s" by (rule reachable_navInv)
  then show "length (filter isPipeline (tweens s)) \<le> 1"
    by (simp add: navInv_def pipeOk_def)
qed (simp_all add: goForward_def goBackward_def)

theorem busy_drops_advance_witness:
  "isAnimating (initState docAB []) \<and> reachable docAB (initState docAB []) \<and>
   goForward docAB (initState docAB []) = Inr (initState docAB []) \<and>
   goBackward docAB (initState docAB []) = Inr (initState docAB []) \<and>
   length (filter isPipeline (tweens (initState docAB []))) \<le> 1"
proof -
  have b: "isAnimating (initState docAB [])"
    by code_simp
  have r: "reachable docAB (initState docAB [])"
    by (rule r_init) (simp_all add: docAB_def)
  show ?thesis
    using b r busy_drops_advance [of "initState docAB []" docAB] by blast
qed

section \<open>Outside content\<close>

lemma positionKey_name: "positionKey key = Some p \<Longrightarrow> key = positionName p"
  by (auto simp: positionKey_def split: if_splits)

lemma showOutsideTpl_shown:
  "shown d st tpl \<Longrightarrow>
   \<exists>n p. html n = the (otContent tpl) \<and> nodeId n = nextId s \<and>
     otPosition tpl = Some (positionName p) \<and>
     showOutsideTpl d st tpl s =
       Inr (s\<lparr>layerNodes := layerNodes s @ [(p, n)],
         tweens := tweens s @ [OutsideEnter n (getFromVarsForPosition p)],
         activeOutside := activeOutside s @ [(n, p)],
         nextId := Suc (nextId s)\<rparr>)"
proof -
  assume "shown d st tpl"
  then obtain p h where l: "lookupLayer d (otPosition tpl) = LayerElement p"
      and c: "otContent tpl = Some h" "otStep tpl = Some st"
    by (auto simp: shown_def matchesStep_def split: layerValue.splits)
  from l obtain key where "otPosition tpl = Some key" "positionKey key = Some p"
    by (auto simp: lookupLayer_def split: option.splits if_splits)
  then have "otPosition tpl = Some (positionName p)"
    by (simp add: positionKey_name)
  with l c show ?thesis
    by (intro exI [of _ "\<lparr>nodeId = nextId s, html = h\<rparr>"] exI [of _ p])
      (simp add: showOutsideTpl_def Let_def)
qed

lemma showOutsideTpl_skipped:
  "\<not> shown d st tpl \<Longrightarrow> \<not> throwing d st tpl \<Longrightarrow> showOutsideTpl d st tpl s = Inr s"
  by (auto simp: shown_def throwing_def matchesStep_def showOutsideTpl_def Let_def
      split: option.splits layerValue.splits)

lemma showOutsideTpl_throws: "throwing d st tpl \<Longrightarrow> showOutsideTpl d st tpl s = Inl TypeError"
  by (auto simp: throwing_def matchesStep_def showOutsideTpl_def)

lemma templateOf_clone:
  assumes "shown d st tpl" and "html n = the (otContent tpl)"
    and "otPosition tpl = Some (positionName p)"
  shows "templateOf st (n, p) = tpl"
  using assms by (cases tpl) (auto simp: templateOf_def shown_def matchesStep_def)

text \<open>One template that does not throw: what it adds to the active set.\<close>

lemma showOutsideTpl_step:
  assumes "\<not> throwing d st tpl"
  shows "\<exists>s'. showOutsideTpl d st tpl s = Inr s' \<and>
           map (templateOf st) (activeOutside s')
             = map (templateOf st) (activeOutside s) @ filter (shown d st) [tpl] \<and>
           (freshActive s \<longrightarrow> freshActive s') \<and> (activeInLayers s \<longrightarrow> activeInLayers s')"
proof (cases "shown d st tpl")
  case True
  from showOutsideTpl_shown [OF True, of s] obtain n p where
    n: "html n = the (otContent tpl)" "nodeId n = nextId s" "otPosition tpl = Some (positionName p)"
    and eq: "showOutsideTpl d st tpl s =
       Inr (s\<lparr>layerNodes := layerNodes s @ [(p, n)],
         tweens := tweens s @ [OutsideEnter n (getFromVarsForPosition p)],
         activeOutside := activeOutside s @ [(n, p)],
         nextId := Suc (nextId s)\<rparr>)"
    by auto
  let ?s' = "s\<lparr>layerNodes := layerNodes s @ [(p, n)],
         tweens := tweens s @ [OutsideEnter n (getFromVarsForPosition p)],
         activeOutside := activeOutside s @ [(n, p)],
         nextId := Suc (nextId s)\<rparr>"
  have "map (templateOf st) (activeOutside ?s')
      = map (templateOf st) (activeOutside s) @ filter (shown d st) [tpl]"
    using True templateOf_clone [OF True n(1,3)] by simp
  moreover have "freshActive s \<longrightarrow> freshActive ?s'"
  proof
    assume f: "freshActive s"
    then have "n \<notin> fst ` set (activeOutside s)"
      using n(2) by (auto simp: freshActive_def list_all_iff)
    then show "freshActive ?s'"
      using f n(2) by (auto simp: freshActive_def list_all_iff less_Suc_eq)
  qed
  moreover have "activeInLayers s \<longrightarrow> activeInLayers ?s'"
    by (auto simp: activeInLayers_def list_all_iff)
  ultimately show ?thesis
    using eq by simp
next
  case False
  with assms show ?thesis by (simp add: showOutsideTpl_skipped)
qed

lemma showOutsideEach_templates:
  assumes "\<forall>tpl\<in>set ts. \<not> throwing d st tpl"
  shows "fst (showOutsideEach d st ts s) = None \<and>
         map (templateOf st) (activeOutside (snd (showOutsideEach d st ts s)))
           = map (templateOf st) (activeOutside s) @ filter (shown d st) ts \<and>
         (freshActive s \<longrightarrow> freshActive (snd (showOutsideEach d st ts s))) \<and>
         (activeInLayers s \<longrightarrow> activeInLayers (snd (showOutsideEach d st ts s)))"
  using assms
proof (induction ts arbitrary: s)
  case Nil
  show ?case by simp
next
  case (Cons t ts)
  then have "\<not> throwing d st t" by simp
  from showOutsideTpl_step [OF this, of s] obtain s' where
    s': "showOutsideTpl d st t s = Inr s'"
      "map (templateOf st) (activeOutside s')
         = map (templateOf st) (activeOutside s) @ filter (shown d st) [t]"
      "freshActive s \<longrightarrow> freshActive s'" "activeInLayers s \<longrightarrow> activeInLayers s'"
    by blast
  have "\<forall>tpl\<in>set ts. \<not> throwing d st tpl"
    using Cons.prems by simp
  from Cons.IH [OF this, of s'] s' show ?case
    by simp
qed

text \<open>An exit animation on a node survives the hiding of the other nodes.\<close>

lemma killAnim_other_exit:
  "OutsideExit n v \<in> set tw \<Longrightarrow> n \<notin> set ns \<Longrightarrow> OutsideExit n v \<in> set (List.map_filter (killAnim ns) tw)"
  by (induction tw) (auto simp: map_filter_Cons List.map_filter_def split: option.splits)

lemma hideOutsideItem_exit_kept:
  assumes "\<exists>v. OutsideExit n v \<in> set (tweens s)"
  shows "\<exists>v. OutsideExit n v \<in> set (tweens (hideOutsideItem item s))"
proof (cases "fst item = n")
  case True
  then show ?thesis
    by (cases item) (auto simp: hideOutsideItem_def Let_def)
next
  case False
  from assms obtain v where "OutsideExit n v \<in> set (tweens s)" by blast
  then have "OutsideExit n v \<in> set (tweens (killTweensOf [fst item] s))"
    using False by (simp add: killTweensOf_def killAnim_other_exit)
  then show ?thesis
    by (cases item) (auto simp: hideOutsideItem_def Let_def)
qed

lemma fold_hideOutsideItem_exit_kept:
  "\<exists>v. OutsideExit n v \<in> set (tweens s) \<Longrightarrow>
   \<exists>v. OutsideExit n v \<in> set (tweens (fold hideOutsideItem xs s))"
  by (induction xs arbitrary: s) (simp_all add: hideOutsideItem_exit_kept)

lemma fold_hideOutsideItem_exits:
  "item \<in> set xs \<Longrightarrow> \<exists>v. OutsideExit (fst item) v \<in> set (tweens (fold hideOutsideItem xs s))"
proof (induction xs arbitrary: s)
  case Nil
  then show ?case by simp
next
  case (Cons x xs)
  show ?case
  proof (cases "item = x")
    case True
    have "\<exists>v. OutsideExit (fst item) v \<in> set (tweens (hideOutsideItem x s))"
      using True by (cases x) (auto simp: hideOutsideItem_def Let_def)
    then show ?thesis
      by (simp add: fold_hideOutsideItem_exit_kept)
  next
    case False
    with Cons show ?thesis by simp
  qed
qed

lemma hideOutside_exits:
  "item \<in> set (activeOutside s) \<Longrightarrow> \<exists>v. OutsideExit (fst item) v \<in> set (tweens (hideOutside s))"
  by (auto simp: hideOutside_def fold_hideOutsideItem_exits)

lemma complete_exit_removes:
  "OutsideExit n v \<in> set (tweens s) \<Longrightarrow> n \<notin> snd ` set (layerNodes (complete d (OutsideExit n v) s))"
  by (auto simp: complete_def)

text \<open>
  Claim C6, as the code has it. Take a section none of whose outside templates makes
  the callback throw. Called with an empty active set, \<^verbatim>\<open>showOutside\<close> returns and leaves
  in the active set one clone for each outside template of the section that matches the
  step, names one of the four layers with an element that exists, and has an element
  to clone, in template order; the clones are distinct nodes and each lies in the layer
  of its position. Templates that match the step but fail one of the other two guards
  are skipped. After \<^verbatim>\<open>hideOutside\<close> the active set is empty, every node that was active
  has an exit animation pending, and the completion of an exit animation takes its node
  out of the layers.
\<close>

theorem outside_show_hide:
  assumes "activeOutside s = []"
    and "\<forall>tpl\<in>set (getOutsideTemplates sec). \<not> throwing d step tpl"
  shows "fst (showOutside d sec step s) = None \<and>
         map (templateOf step) (activeOutside (snd (showOutside d sec step s)))
           = filter (shown d step) (getOutsideTemplates sec) \<and>
         distinct (map fst (activeOutside (snd (showOutside d sec step s)))) \<and>
         (\<forall>item\<in>set (activeOutside (snd (showOutside d sec step s))).
            (snd item, fst item) \<in> set (layerNodes (snd (showOutside d sec step s)))) \<and>
         activeOutside (hideOutside t) = [] \<and>
         (\<forall>item\<in>set (activeOutside t). \<exists>v. OutsideExit (fst item) v \<in> set (tweens (hideOutside t))) \<and>
         (\<forall>n v. OutsideExit n v \<in> set (tweens (hideOutside t)) \<longrightarrow>
            n \<notin> snd ` set (layerNodes (complete d (OutsideExit n v) (hideOutside t))))"
proof -
  let ?r = "showOutside d sec step s"
  have "freshActive s" and "activeInLayers s"
    using assms(1) by (simp_all add: freshActive_def activeInLayers_def)
  with showOutsideEach_templates [OF assms(2), of s]
  have r: "fst ?r = None"
    "map (templateOf step) (activeOutside (snd ?r)) = filter (shown d step) (getOutsideTemplates sec)"
    "freshActive (snd ?r)" "activeInLayers (snd ?r)"
    using assms(1) by (simp_all add: showOutside_def)
  then have "distinct (map fst (activeOutside (snd ?r)))"
    and "\<forall>item\<in>set (activeOutside (snd ?r)). (snd item, fst item) \<in> set (layerNodes (snd ?r))"
    by (simp_all add: freshActive_def activeInLayers_def list_all_iff)
  moreover have "\<forall>item\<in>set (activeOutside t). \<exists>v. OutsideExit (fst item) v \<in> set (tweens (hideOutside t))"
    by (simp add: hideOutside_exits)
  moreover have "\<forall>n v. OutsideExit n v \<in> set (tweens (hideOutside t)) \<longrightarrow>
            n \<notin> snd ` set (layerNodes (complete d (OutsideExit n v) (hideOutside t)))"
    by (simp add: complete_exit_removes)
  ultimately show ?thesis
    using r(1,2) by simp
qed

theorem outside_show_hide_witness:
  "activeOutside blank = [] \<and>
   \<not> throwing docAB 0 (getOutsideTemplates secA ! 0) \<and>
   \<not> throwing docAB 0 (getOutsideTemplates secA ! 1) \<and>
   length (getOutsideTemplates secA) = 2 \<and>
   fst (showOutside docAB secA 0 blank) = None \<and>
   map (templateOf 0) (activeOutside (snd (showOutside docAB secA 0 blank)))
     = [\<lparr>otStep = Some 0, otPosition = Some ''left'', otContent = Some ''<i></i>''\<rparr>] \<and>
   activeOutside (hideOutside settledA) = [] \<and>
   \<lparr>nodeId = 1, html = ''<i></i>''\<rparr> \<notin> snd ` set (layerNodes
      (complete docAB (OutsideExit \<lparr>nodeId = 1, html = ''<i></i>''\<rparr> (Vars 0 (- 40) 0))
         (hideOutside settledA)))"
proof -
  have h: "activeOutside blank = []"
    by (simp add: blank_def)
  have n: "\<forall>tpl\<in>set (getOutsideTemplates secA). \<not> throwing docAB 0 tpl"
    by (simp add: throwing_def matchesStep_def lookupLayer_def positionKey_def docAB_def secA_def
        getOutsideTemplates_def allLayers_def)
  have f: "filter (shown docAB 0) (getOutsideTemplates secA)
      = [\<lparr>otStep = Some 0, otPosition = Some ''left'', otContent = Some ''<i></i>''\<rparr>]"
    by (simp add: shown_def matchesStep_def lookupLayer_def positionKey_def docAB_def secA_def
        getOutsideTemplates_def allLayers_def)
  have p: "OutsideExit \<lparr>nodeId = 1, html = ''<i></i>''\<rparr> (Vars 0 (- 40) 0)
      \<in> set (tweens (hideOutside settledA))"
    by code_simp
  have m: "\<not> throwing docAB 0 (getOutsideTemplates secA ! 0) \<and>
      \<not> throwing docAB 0 (getOutsideTemplates secA ! 1) \<and>
      length (getOutsideTemplates secA) = 2"
    by (simp add: throwing_def matchesStep_def lookupLayer_def positionKey_def docAB_def secA_def
        getOutsideTemplates_def allLayers_def)
  from outside_show_hide [OF h n, of settledA] h m f p show ?thesis
    by auto
qed

text \<open>
  Claim C6, as stated, fails on \<open>docNoTop\<close>: two outside templates of the section carry
  step 0, the layer of the second does not exist, and \<^verbatim>\<open>showOutside\<close> returns with one
  active instance.
\<close>

theorem skipped_template_counterexample:
  "activeOutside blank = [] \<and>
   length (filter (matchesStep 0) (getOutsideTemplates secTwo)) = 2 \<and>
   fst (showOutside docNoTop secTwo 0 blank) = None \<and>
   length (activeOutside (snd (showOutside docNoTop secTwo 0 blank))) = 1"
  by code_simp

text \<open>
  On \<open>secInherited\<close> the callback throws at the second template: \<^verbatim>\<open>outsideLayers\<close>
  inherits \<^verbatim>\<open>toString\<close>, the guard \<^verbatim>\<open>if (!layer) return\<close> lets the function through
  and \<^verbatim>\<open>layer.appendChild\<close> is no function. The first template is shown, the third is
  never reached, and a handler that called \<^verbatim>\<open>showOutside\<close> is left by the exception.
\<close>

lemma inherited_key_throws:
  "fst (showOutside docAB secInherited 0 blank) = Some TypeError \<and>
   map snd (activeOutside (snd (showOutside docAB secInherited 0 blank))) = [PosLeft] \<and>
   uncaught (showOutsideCall docAB secInherited 0 blank) = [TypeError]"
  by code_simp

section \<open>The position invariant\<close>

lemma initState_position: "sectionIndex (initState d hs) = 0 \<and> stepIndex (initState d hs) = 0"
  by (simp add: initState_def Let_def)

text \<open>
  Claim C7, as the code has it. In every reachable state (the initial one, and every
  state that navigation requests, animation completions and the teardown lead to)
  \<open>0 \<le> sectionIndex < sectionCount\<close> and \<open>0 \<le> stepIndex \<le> lastStepOf sectionIndex\<close>;
  so \<open>stepIndex < stepCountOf sectionIndex\<close> whenever the current section has a step
  template.
\<close>

theorem position_invariant:
  assumes "reachable d s"
  shows "0 \<le> sectionIndex s \<and> sectionIndex s < int (length (sections d)) \<and>
         0 \<le> stepIndex s \<and> stepIndex s \<le> lastStepOf (sections d ! nat (sectionIndex s)) \<and>
         (getStepTemplates (sections d ! nat (sectionIndex s)) \<noteq> [] \<longrightarrow>
            stepIndex s < int (length (getStepTemplates (sections d ! nat (sectionIndex s)))))"
proof -
  have "positionOk d s"
    using assms reachable_navInv by (simp add: navInv_def)
  then show ?thesis
    by (auto simp: positionOk_def lastStepOf_def)
qed

theorem position_invariant_witness:
  "reachable docAB settledA \<and> sectionIndex settledA < int (length (sections docAB)) \<and>
   stepIndex settledA < int (length (getStepTemplates (sections docAB ! nat (sectionIndex settledA))))"
proof -
  have "getStepTemplates (sections docAB ! nat (sectionIndex settledA)) \<noteq> []"
    by (simp add: settledA_def docAB_def secA_def getStepTemplates_def)
  then show ?thesis
    using position_invariant [OF reachable_settledA] reachable_settledA by blast
qed

text \<open>
  Claim C7, as stated, fails on a page whose first section has no step template: the
  initial state is at step 0 of a section with 0 steps.
\<close>

theorem stepless_section_counterexample:
  "reachable docEmpty (initState docEmpty []) \<and>
   \<not> stepIndex (initState docEmpty [])
      < int (length (getStepTemplates (sections docEmpty ! nat (sectionIndex (initState docEmpty [])))))"
proof -
  have "reachable docEmpty (initState docEmpty [])"
    by (rule r_init) (simp_all add: docEmpty_def)
  moreover have "getStepTemplates (sections docEmpty ! nat (sectionIndex (initState docEmpty []))) = []"
    by (simp add: initState_position) (simp add: docEmpty_def secEmpty_def getStepTemplates_def)
  ultimately show ?thesis
    by (simp add: initState_position)
qed

section \<open>A missing step template\<close>

lemma stalled_fire:
  assumes "isAnimating s" and "filter isPipeline (tweens s) = []"
  shows "\<exists>u. fire d e s = Inr u \<and> isAnimating u \<and> filter isPipeline (tweens u) = [] \<and>
           sectionIndex u = sectionIndex s \<and> stepIndex u = stepIndex s \<and>
           deviceChildren u = deviceChildren s"
proof (cases e)
  case Forward
  with assms show ?thesis by (simp add: goForward_def)
next
  case Backward
  with assms show ?thesis by (simp add: goBackward_def)
next
  case (Complete a)
  show ?thesis
  proof (cases "a \<in> set (tweens s)")
    case True
    then have np: "\<not> isPipeline a"
      using assms(2) by (auto simp: filter_empty_conv)
    then have "filter isPipeline (remove1 a (tweens s)) = []"
      using assms(2) by (simp add: filter_remove1_other)
    then show ?thesis
      using Complete True np assms(1) by (cases a) (simp_all add: complete_def)
  next
    case False
    with Complete assms show ?thesis by (simp add: complete_def)
  qed
qed

lemma stalled_run:
  "isAnimating s \<Longrightarrow> filter isPipeline (tweens s) = [] \<Longrightarrow>
   \<exists>u. run d evs s = Inr u \<and> isAnimating u \<and> sectionIndex u = sectionIndex s \<and>
       stepIndex u = stepIndex s \<and> deviceChildren u = deviceChildren s"
proof (induction evs arbitrary: s)
  case Nil
  then show ?case by simp
next
  case (Cons e evs)
  from stalled_fire [OF Cons.prems, of d e] obtain t where
    t: "fire d e s = Inr t" "isAnimating t" "filter isPipeline (tweens t) = []"
       "sectionIndex t = sectionIndex s" "stepIndex t = stepIndex s"
       "deviceChildren t = deviceChildren s"
    by blast
  from Cons.IH [OF t(2,3)] t show ?case by simp
qed

text \<open>
  Claim C8 on \<open>docStall\<close>. The navigator is at rest on the only step of the first
  section; the second section has no step template. \<^verbatim>\<open>goForward\<close> starts the
  transition, its content callback commits position \<open>(1, 0)\<close> and calls
  \<^verbatim>\<open>renderDeviceStep\<close>, which returns at its guard with the old content in place. The
  busy flag that \<^verbatim>\<open>goToSection\<close> has set is then never cleared: whatever requests and
  completions follow, the navigator stays busy at \<open>(1, 0)\<close>.
\<close>

theorem empty_section_entry_stalls:
  "reachable docStall (drain docStall (initState docStall [])) \<and>
   run docStall [Forward, Complete (SectionSlide 0 secEmpty 1 1 0)]
     (drain docStall (initState docStall [])) = Inr stalled \<and>
   (\<forall>evs. \<exists>u. run docStall evs stalled = Inr u \<and> isAnimating u \<and>
      positionOf (Inr u) = Some (1, 0) \<and>
      deviceChildren u = [\<lparr>nodeId = 0, html = ''<p></p>''\<rparr>])"
proof -
  have "reachable docStall (initState docStall [])"
    by (rule r_init) (simp_all add: docStall_def)
  then have r: "reachable docStall (drain docStall (initState docStall []))"
    by (rule reachable_drain)
  have e: "run docStall [Forward, Complete (SectionSlide 0 secEmpty 1 1 0)]
     (drain docStall (initState docStall [])) = Inr stalled"
    by code_simp
  have "isAnimating stalled" and "filter isPipeline (tweens stalled) = []"
    by (simp_all add: stalled_def)
  then have "\<exists>u. run docStall evs stalled = Inr u \<and> isAnimating u \<and>
      sectionIndex u = sectionIndex stalled \<and> stepIndex u = stepIndex stalled \<and>
      deviceChildren u = deviceChildren stalled" for evs
    by (rule stalled_run)
  then have "\<forall>evs. \<exists>u. run docStall evs stalled = Inr u \<and> isAnimating u \<and>
      positionOf (Inr u) = Some (1, 0) \<and>
      deviceChildren u = [\<lparr>nodeId = 0, html = ''<p></p>''\<rparr>]"
    by (simp add: stalled_def)
  with r e show ?thesis by simp
qed

section \<open>Initialisation\<close>

text \<open>
  Claim C9. When the page has no \<^verbatim>\<open>.section\<close> element or no \<^verbatim>\<open>#device-content\<close>,
  \<^verbatim>\<open>initObserver\<close> only appends its warning to the console: no navigator state exists
  afterwards, no observer and no key listener has been added, and calling the teardown
  it returns changes nothing.
\<close>

theorem init_aborts_without_roots:
  assumes "sections d = [] \<or> deviceContent d = None"
  shows "initObserver d w = (w\<lparr>console := console w @ [''Observer: missing DOM nodes.'']\<rparr>, NoopTeardown) \<and>
         navigator (fst (initObserver d w)) = navigator w \<and>
         observers (fst (initObserver d w)) = observers w \<and>
         keydownListeners (fst (initObserver d w)) = keydownListeners w \<and>
         callTeardown (snd (initObserver d w)) w' = w'"
  using assms by (auto simp: initObserver_def split: option.splits)

theorem init_aborts_without_roots_witness:
  "deviceContent docNoDevice = None \<and>
   initObserver docNoDevice world0 =
     (\<lparr>console = [''Observer: missing DOM nodes.''], observers = 0, keydownListeners = 0,
       navigator = None\<rparr>, NoopTeardown) \<and>
   callTeardown (snd (initObserver docNoDevice world0)) world0 = world0"
proof -
  have h: "sections docNoDevice = [] \<or> deviceContent docNoDevice = None"
    by (simp add: docNoDevice_def)
  from init_aborts_without_roots [OF h, of world0 world0] h show ?thesis
    by (simp add: world0_def docNoDevice_def)
qed

section \<open>The busy flag during a step\<close>

lemma filter_single_remove1:
  assumes "filter P xs = [a]"
  shows "a \<in> set xs \<and> P a \<and> filter P (remove1 a xs) = []"
proof -
  have "a \<in> set (filter P xs)" using assms by simp
  then have m: "a \<in> set xs" "P a" by simp_all
  then have "Suc (length (filter P (remove1 a xs))) = length (filter P xs)"
    by (intro filter_remove1_length)
  then have "filter P (remove1 a xs) = []"
    using assms by simp
  with m show ?thesis by simp
qed

lemma fade_chain:
  assumes "isAnimating t" and "filter isPipeline (tweens t) = [StepFadeOut old n x]"
  shows "entersContent d old n x t"
proof -
  let ?fade = "StepFadeOut old n x" and ?enter = "StepEnter n x"
  from filter_single_remove1 [OF assms(2)]
  have f: "?fade \<in> set (tweens t)" "filter isPipeline (remove1 ?fade (tweens t)) = []"
    by simp_all
  let ?s1 = "complete d ?fade t"
  have s1: "?s1 = t\<lparr>tweens := remove1 ?fade (tweens t) @ [?enter], deviceChildren := [n]\<rparr>"
    using f(1) by (simp add: complete_def)
  have p1: "filter isPipeline (tweens ?s1) = [?enter]"
    using f(2) by (simp add: s1)
  from filter_single_remove1 [OF p1]
  have e: "?enter \<in> set (tweens ?s1)" "filter isPipeline (remove1 ?enter (tweens ?s1)) = []"
    by simp_all
  let ?s2 = "complete d ?enter ?s1"
  have s2: "?s2 = ?s1\<lparr>tweens := remove1 ?enter (tweens ?s1), isAnimating := False\<rparr>"
    using e(1) by (simp add: complete_def)
  have "\<not> isAnimating ?s2 \<and> deviceChildren ?s2 = [n] \<and> filter isPipeline (tweens ?s2) = []"
    using e(2) unfolding s2 by (simp add: s1)
  moreover have "isAnimating ?s1 \<and> deviceChildren ?s1 = [n]"
    using assms(1) by (simp add: s1)
  ultimately show ?thesis
    using assms p1 by (simp add: entersContent_def Let_def)
qed

lemma renderDeviceStep_success:
  assumes "nthOpt (getStepTemplates sec) st = Some tpl" and "stContent tpl = Some h"
  shows "renderDeviceStep sec st s =
     (killTweensOf (deviceChildren s) s)
       \<lparr>isAnimating := True, nextId := Suc (nextId s),
        tweens := tweens (killTweensOf (deviceChildren s) s) @
          [StepFadeOut (deviceChildren s) \<lparr>nodeId = nextId s, html = h\<rparr> (enterOffset tpl)]\<rparr>"
  using assms by (simp add: renderDeviceStep_def Let_def)

lemma stepTo_entersContent:
  assumes "filter isPipeline (tweens s) = []"
    and "nthOpt (getStepTemplates sec) k = Some tpl" and "stContent tpl = Some h"
  shows "entersContent d (deviceChildren s) \<lparr>nodeId = nextId s, html = h\<rparr> (enterOffset tpl)
           (showOutsideCall d sec k (renderDeviceStep sec k (hideOutside (s\<lparr>stepIndex := k\<rparr>))))"
proof -
  let ?x = "hideOutside (s\<lparr>stepIndex := k\<rparr>)"
  have "filter isPipeline (tweens ?x) = []"
    using assms(1) by (intro hideOutside_idle) simp
  then have "length (filter isPipeline (tweens (killTweensOf (deviceChildren ?x) ?x))) = 0"
    using killTweensOf_pipeline [of "deviceChildren ?x" ?x] by simp
  then have k: "filter isPipeline (tweens (killTweensOf (deviceChildren ?x) ?x)) = []"
    by simp
  have "filter isPipeline (tweens (renderDeviceStep sec k ?x))
      = [StepFadeOut (deviceChildren s) \<lparr>nodeId = nextId s, html = h\<rparr> (enterOffset tpl)]"
    using k by (simp add: renderDeviceStep_success [OF assms(2,3)])
  moreover have "isAnimating (renderDeviceStep sec k ?x)"
    by (simp add: renderDeviceStep_success [OF assms(2,3)])
  ultimately show ?thesis
    by (intro fade_chain) simp_all
qed

text \<open>While the fade-out or the entry of the new content is pending, nothing else clears the flag.\<close>

lemma entering_fire:
  assumes "isAnimating u"
    and "filter isPipeline (tweens u) = [StepFadeOut old n x] \<or>
         filter isPipeline (tweens u) = [StepEnter n x]"
    and "e \<noteq> Complete (StepEnter n x)"
  shows "\<exists>v. fire d e u = Inr v \<and> isAnimating v \<and>
           (filter isPipeline (tweens v) = [StepFadeOut old n x] \<or>
            filter isPipeline (tweens v) = [StepEnter n x]) \<and>
           sectionIndex v = sectionIndex u \<and> stepIndex v = stepIndex u"
proof (cases e)
  case Forward
  with assms show ?thesis by (simp add: goForward_def)
next
  case Backward
  with assms show ?thesis by (simp add: goBackward_def)
next
  case (Complete a)
  show ?thesis
  proof (cases "a \<in> set (tweens u)")
    case False
    with Complete assms show ?thesis by (simp add: complete_def)
  next
    case True
    show ?thesis
    proof (cases "isPipeline a")
      case False
      then have "filter isPipeline (remove1 a (tweens u)) = filter isPipeline (tweens u)"
        by (rule filter_remove1_other)
      with False True Complete assms show ?thesis
        by (cases a) (simp_all add: complete_def)
    next
      case pl: True
      then have m: "a \<in> set (filter isPipeline (tweens u))"
        using True by simp
      from assms(2)
      have "a = StepFadeOut old n x \<and> filter isPipeline (tweens u) = [StepFadeOut old n x]"
      proof
        assume q: "filter isPipeline (tweens u) = [StepFadeOut old n x]"
        from m have "a \<in> set [StepFadeOut old n x]" unfolding q .
        then show ?thesis using q by simp
      next
        assume q: "filter isPipeline (tweens u) = [StepEnter n x]"
        from m have "a \<in> set [StepEnter n x]" unfolding q .
        then show ?thesis using assms(3) Complete by simp
      qed
      then have a: "a = StepFadeOut old n x" and p: "filter isPipeline (tweens u) = [StepFadeOut old n x]"
        by simp_all
      from fade_chain [OF assms(1) p, of d] show ?thesis
        using Complete a True by (simp add: entersContent_def Let_def complete_def)
    qed
  qed
qed

lemma entering_run:
  assumes "isAnimating u"
    and "filter isPipeline (tweens u) = [StepFadeOut old n x] \<or>
         filter isPipeline (tweens u) = [StepEnter n x]"
    and "Complete (StepEnter n x) \<notin> set evs"
  shows "\<exists>v. run d evs u = Inr v \<and> isAnimating v \<and> positionOf (Inr v) = positionOf (Inr u)"
  using assms
proof (induction evs arbitrary: u)
  case Nil
  then show ?case by simp
next
  case (Cons e evs)
  then have "e \<noteq> Complete (StepEnter n x)" by auto
  from entering_fire [OF Cons.prems(1,2) this, of d]
  obtain t where t: "fire d e u = Inr t" "isAnimating t"
      "filter isPipeline (tweens t) = [StepFadeOut old n x] \<or>
       filter isPipeline (tweens t) = [StepEnter n x]"
      "sectionIndex t = sectionIndex u" "stepIndex t = stepIndex u"
    by blast
  have "Complete (StepEnter n x) \<notin> set evs"
    using Cons.prems(3) by simp
  from Cons.IH [OF t(2,3) this] t show ?case
    by auto
qed

text \<open>
  Claim C10. In a reachable state that is not busy, a \<^verbatim>\<open>goForward\<close> or \<^verbatim>\<open>goBackward\<close>
  that moves to a step of the same section whose template exists and has an element to
  clone returns a busy state at the new step in which the fade-out started by
  \<^verbatim>\<open>renderDeviceStep\<close> for the clone is the one navigation animation pending; its
  completion puts the clone into \<^verbatim>\<open>#device-content\<close> and starts the entry animation of
  the clone, and the completion of that entry animation clears the flag. Until then the
  flag stays set: every run of requests and completions that does not hold the
  completion of this entry animation ends busy at the same position, so every request
  in it is dropped.
\<close>

theorem step_navigation_sets_busy:
  assumes "reachable d s" and "\<not> isAnimating s"
    and "nthOpt (sections d) (sectionIndex s) = Some sec"
  shows
   "(stepIndex s < int (length (getStepTemplates sec)) - 1 \<and>
     nthOpt (getStepTemplates sec) (stepIndex s + 1) = Some tpl \<and> stContent tpl = Some h \<longrightarrow>
     (\<exists>s'. goForward d s = Inr s' \<and>
        positionOf (Inr s') = Some (sectionIndex s, stepIndex s + 1) \<and>
        entersContent d (deviceChildren s) \<lparr>nodeId = nextId s, html = h\<rparr> (enterOffset tpl) s' \<and>
        (\<forall>evs. Complete (StepEnter \<lparr>nodeId = nextId s, html = h\<rparr> (enterOffset tpl)) \<notin> set evs \<longrightarrow>
           (\<exists>u. run d evs s' = Inr u \<and> isAnimating u \<and>
                positionOf (Inr u) = Some (sectionIndex s, stepIndex s + 1))))) \<and>
    (0 < stepIndex s \<and>
     nthOpt (getStepTemplates sec) (stepIndex s - 1) = Some tpl \<and> stContent tpl = Some h \<longrightarrow>
     (\<exists>s'. goBackward d s = Inr s' \<and>
        positionOf (Inr s') = Some (sectionIndex s, stepIndex s - 1) \<and>
        entersContent d (deviceChildren s) \<lparr>nodeId = nextId s, html = h\<rparr> (enterOffset tpl) s' \<and>
        (\<forall>evs. Complete (StepEnter \<lparr>nodeId = nextId s, html = h\<rparr> (enterOffset tpl)) \<notin> set evs \<longrightarrow>
           (\<exists>u. run d evs s' = Inr u \<and> isAnimating u \<and>
                positionOf (Inr u) = Some (sectionIndex s, stepIndex s - 1)))))"
proof -
  have idle: "filter isPipeline (tweens s) = []"
    using reachable_navInv [OF assms(1)] assms(2) by (simp add: navInv_def pipeOk_idle)
  have step: "\<exists>s'. g = Inr s' \<and> positionOf (Inr s') = Some (sectionIndex s, k) \<and>
        entersContent d (deviceChildren s) \<lparr>nodeId = nextId s, html = h\<rparr> (enterOffset tpl) s' \<and>
        (\<forall>evs. Complete (StepEnter \<lparr>nodeId = nextId s, html = h\<rparr> (enterOffset tpl)) \<notin> set evs \<longrightarrow>
           (\<exists>u. run d evs s' = Inr u \<and> isAnimating u \<and>
                positionOf (Inr u) = Some (sectionIndex s, k)))"
    if g: "g = Inr (showOutsideCall d sec k (renderDeviceStep sec k (hideOutside (s\<lparr>stepIndex := k\<rparr>))))"
      and tpl: "nthOpt (getStepTemplates sec) k = Some tpl" "stContent tpl = Some h"
    for g k
  proof -
    let ?t = "showOutsideCall d sec k (renderDeviceStep sec k (hideOutside (s\<lparr>stepIndex := k\<rparr>)))"
    let ?n = "\<lparr>nodeId = nextId s, html = h\<rparr>"
    have ec: "entersContent d (deviceChildren s) ?n (enterOffset tpl) ?t"
      using idle tpl by (rule stepTo_entersContent)
    then have b: "isAnimating ?t"
      and p: "filter isPipeline (tweens ?t) = [StepFadeOut (deviceChildren s) ?n (enterOffset tpl)]"
      by (simp_all add: entersContent_def)
    have pos: "positionOf (Inr ?t) = Some (sectionIndex s, k)"
      by simp
    have "\<exists>u. run d evs ?t = Inr u \<and> isAnimating u \<and> positionOf (Inr u) = Some (sectionIndex s, k)"
      if "Complete (StepEnter ?n (enterOffset tpl)) \<notin> set evs" for evs
      using entering_run [OF b _ that, of "deviceChildren s" d] p pos by simp
    with ec pos g show ?thesis by blast
  qed
  show ?thesis
  proof (intro conjI impI)
    assume a: "stepIndex s < int (length (getStepTemplates sec)) - 1 \<and>
     nthOpt (getStepTemplates sec) (stepIndex s + 1) = Some tpl \<and> stContent tpl = Some h"
    then have "goForward d s = Inr (showOutsideCall d sec (stepIndex s + 1)
        (renderDeviceStep sec (stepIndex s + 1) (hideOutside (s\<lparr>stepIndex := stepIndex s + 1\<rparr>))))"
      using assms(2,3) by (intro goForward_step) simp_all
    from step [OF this] a show "\<exists>s'. goForward d s = Inr s' \<and>
        positionOf (Inr s') = Some (sectionIndex s, stepIndex s + 1) \<and>
        entersContent d (deviceChildren s) \<lparr>nodeId = nextId s, html = h\<rparr> (enterOffset tpl) s' \<and>
        (\<forall>evs. Complete (StepEnter \<lparr>nodeId = nextId s, html = h\<rparr> (enterOffset tpl)) \<notin> set evs \<longrightarrow>
           (\<exists>u. run d evs s' = Inr u \<and> isAnimating u \<and>
                positionOf (Inr u) = Some (sectionIndex s, stepIndex s + 1)))"
      by blast
  next
    assume a: "0 < stepIndex s \<and>
     nthOpt (getStepTemplates sec) (stepIndex s - 1) = Some tpl \<and> stContent tpl = Some h"
    then have "goBackward d s = Inr (showOutsideCall d sec (stepIndex s - 1)
        (renderDeviceStep sec (stepIndex s - 1) (hideOutside (s\<lparr>stepIndex := stepIndex s - 1\<rparr>))))"
      using assms(2,3) by (intro goBackward_step) simp_all
    from step [OF this] a show "\<exists>s'. goBackward d s = Inr s' \<and>
        positionOf (Inr s') = Some (sectionIndex s, stepIndex s - 1) \<and>
        entersContent d (deviceChildren s) \<lparr>nodeId = nextId s, html = h\<rparr> (enterOffset tpl) s' \<and>
        (\<forall>evs. Complete (StepEnter \<lparr>nodeId = nextId s, html = h\<rparr> (enterOffset tpl)) \<notin> set evs \<longrightarrow>
           (\<exists>u. run d evs s' = Inr u \<and> isAnimating u \<and>
                positionOf (Inr u) = Some (sectionIndex s, stepIndex s - 1)))"
      by blast
  qed
qed

theorem step_navigation_sets_busy_witness:
  "reachable docAB settledA \<and> \<not> isAnimating settledA \<and>
   (\<exists>s'. goForward docAB settledA = Inr s' \<and> positionOf (Inr s') = Some (0, 1) \<and>
      isAnimating s' \<and>
      filter isPipeline (tweens s') =
        [StepFadeOut [\<lparr>nodeId = 0, html = ''<p></p>''\<rparr>] \<lparr>nodeId = 2, html = ''<p></p>''\<rparr> (- 40)] \<and>
      \<not> isAnimating
         (complete docAB (StepEnter \<lparr>nodeId = 2, html = ''<p></p>''\<rparr> (- 40))
            (complete docAB
               (StepFadeOut [\<lparr>nodeId = 0, html = ''<p></p>''\<rparr>] \<lparr>nodeId = 2, html = ''<p></p>''\<rparr> (- 40))
               s')) \<and>
      (\<exists>u. run docAB [Forward, Backward] s' = Inr u \<and> isAnimating u \<and>
           positionOf (Inr u) = Some (0, 1))) \<and>
   reachable docAB endA \<and> \<not> isAnimating endA \<and>
   (\<exists>s'. goBackward docAB endA = Inr s' \<and> positionOf (Inr s') = Some (0, 1) \<and> isAnimating s')"
proof -
  have f: "\<not> isAnimating settledA" "nthOpt (sections docAB) (sectionIndex settledA) = Some secA"
      "stepIndex settledA < int (length (getStepTemplates secA)) - 1 \<and>
       nthOpt (getStepTemplates secA) (stepIndex settledA + 1) = Some tplP \<and>
       stContent tplP = Some ''<p></p>''"
    by (simp_all add: settledA_def docAB_def secA_def tplP_def nthOpt_def getStepTemplates_def)
  have b: "\<not> isAnimating endA" "nthOpt (sections docAB) (sectionIndex endA) = Some secA"
      "0 < stepIndex endA \<and>
       nthOpt (getStepTemplates secA) (stepIndex endA - 1) = Some tplP \<and>
       stContent tplP = Some ''<p></p>''"
    by (simp_all add: endA_def docAB_def secA_def tplP_def nthOpt_def getStepTemplates_def)
  have v: "sectionIndex settledA = 0" "stepIndex settledA = 0" "nextId settledA = 2"
      "deviceChildren settledA = [\<lparr>nodeId = 0, html = ''<p></p>''\<rparr>]"
      "sectionIndex endA = 0" "stepIndex endA = 2" "enterOffset tplP = - 40"
      "Complete (StepEnter \<lparr>nodeId = 2, html = ''<p></p>''\<rparr> (- 40)) \<notin> set [Forward, Backward]"
    by (simp_all add: settledA_def endA_def enterOffset_def tplP_def OFFSCREEN_OFFSET_def)
  from step_navigation_sets_busy [OF reachable_settledA f(1,2), of tplP "''<p></p>''"] f(3)
  obtain s' where s': "goForward docAB settledA = Inr s'"
      "positionOf (Inr s') = Some (0, 1)"
      "entersContent docAB [\<lparr>nodeId = 0, html = ''<p></p>''\<rparr>] \<lparr>nodeId = 2, html = ''<p></p>''\<rparr> (- 40) s'"
      "\<exists>u. run docAB [Forward, Backward] s' = Inr u \<and> isAnimating u \<and>
           positionOf (Inr u) = Some (0, 1)"
    unfolding v by (auto simp del: run.simps)
  from step_navigation_sets_busy [OF reachable_endA b(1,2), of tplP "''<p></p>''"] b(3)
  obtain t' where t': "goBackward docAB endA = Inr t'" "positionOf (Inr t') = Some (0, 1)"
      "isAnimating t'"
    unfolding v by (auto simp: entersContent_def)
  from s' t' f(1) b(1) reachable_settledA reachable_endA show ?thesis
    by (auto simp: entersContent_def Let_def simp del: run.simps)
qed

end
